theory Spec2Isabelle
  imports Main "HOL-Library.Word" "HOL-Library.AList" "HOL-Library.Sublist"
begin

section \<open>Structured values\<close>

text \<open>
  The values the save system moves between IndexedDB (the Store) and localStorage (the
  FlatStore). Strings are sequences of 8-bit code units; a byte of a binary buffer is an
  8-bit word. Finite numbers are exact decimals: \<open>Fin i\<close> is the integer \<open>i\<close> and
  \<open>Dec m j\<close> is \<open>m / 10^j\<close> (canonical when \<open>j > 0\<close> and \<open>10\<close> does not divide \<open>m\<close>),
  with unbounded range and precision; the rounding of IEEE doubles is not modelled.
  A typed view records its constructor, the bytes of the whole underlying buffer, and the
  byte offset and byte length of the window it shows. An array is dense, an object is
  the list of its own enumerable properties in enumeration order. A Date holds its time
  value in milliseconds, \<open>None\<close> for an invalid date.
\<close>

datatype jsnum = Fin int | Dec int nat | NaN | PosInf | NegInf

type_synonym byte = "8 word"

datatype viewkind =
    Int8Array | Uint8Array | Uint8ClampedArray | Int16Array | Uint16Array
  | Int32Array | Uint32Array | Float32Array | Float64Array
  | BigInt64Array | BigUint64Array | DataView

datatype jsval =
    JNull
  | JUndefined
  | JBool bool
  | JNum jsnum
  | JBigInt int
  | JStr string
  | JDate "int option"
  | JArrayBuffer "byte list"
  | JView viewkind "byte list" nat nat
  | JBlob "byte list" string
  | JArr "jsval list"
  | JObj "(string \<times> jsval) list"

datatype js_error =
    TypeError | SyntaxError | InvalidCharacterError | StoreUnavailable

fun ctorName :: "viewkind \<Rightarrow> string" where
  "ctorName Int8Array = ''Int8Array''"
| "ctorName Uint8Array = ''Uint8Array''"
| "ctorName Uint8ClampedArray = ''Uint8ClampedArray''"
| "ctorName Int16Array = ''Int16Array''"
| "ctorName Uint16Array = ''Uint16Array''"
| "ctorName Int32Array = ''Int32Array''"
| "ctorName Uint32Array = ''Uint32Array''"
| "ctorName Float32Array = ''Float32Array''"
| "ctorName Float64Array = ''Float64Array''"
| "ctorName BigInt64Array = ''BigInt64Array''"
| "ctorName BigUint64Array = ''BigUint64Array''"
| "ctorName DataView = ''DataView''"

fun bytesPerElement :: "viewkind \<Rightarrow> nat" where
  "bytesPerElement Int8Array = 1"
| "bytesPerElement Uint8Array = 1"
| "bytesPerElement Uint8ClampedArray = 1"
| "bytesPerElement Int16Array = 2"
| "bytesPerElement Uint16Array = 2"
| "bytesPerElement Int32Array = 4"
| "bytesPerElement Uint32Array = 4"
| "bytesPerElement Float32Array = 4"
| "bytesPerElement Float64Array = 8"
| "bytesPerElement BigInt64Array = 8"
| "bytesPerElement BigUint64Array = 8"
| "bytesPerElement DataView = 1"

definition allViewKinds :: "viewkind list" where
  "allViewKinds = [Int8Array, Uint8Array, Uint8ClampedArray, Int16Array, Uint16Array,
     Int32Array, Uint32Array, Float32Array, Float64Array, BigInt64Array, BigUint64Array,
     DataView]"

text \<open>
  \<open>globalThis[ctor]\<close>, restricted to the constructors of views: any other name is
  treated as not bound to a constructor.
\<close>

definition globalThisView :: "string \<Rightarrow> viewkind option" where
  "globalThisView name = find (\<lambda>k. ctorName k = name) allViewKinds"

section \<open>Numbers as text\<close>

definition digit_char :: "nat \<Rightarrow> char" where
  "digit_char d = char_of (48 + d)"

fun nat_digits :: "nat \<Rightarrow> string" where
  "nat_digits n =
     (if n < 10 then [digit_char n] else nat_digits (n div 10) @ [digit_char (n mod 10)])"

declare nat_digits.simps [simp del]

definition int_to_string :: "int \<Rightarrow> string" where
  "int_to_string i = (if i < 0 then CHR ''-'' # nat_digits (nat (- i)) else nat_digits (nat i))"

definition strip_zeros :: "string \<Rightarrow> string" where
  "strip_zeros ds = rev (dropWhile (\<lambda>c. c = CHR ''0'') (rev ds))"

definition sci_notation :: "string \<Rightarrow> int \<Rightarrow> string" where
  "sci_notation ds e =
     (if length ds \<le> 1 then ds else hd ds # CHR ''.'' # tl ds)
     @ ''e'' @ (if e < 0 then ''-'' else ''+'') @ nat_digits (nat \<bar>e\<bar>)"

text \<open>
  Number::toString for a positive decimal whose significant digits are \<open>ds\<close> and whose
  decimal point stands after the first \<open>n\<close> digits.
\<close>

definition decimal_to_string :: "string \<Rightarrow> int \<Rightarrow> string" where
  "decimal_to_string ds n =
     (let k = int (length ds) in
      if k \<le> n \<and> n \<le> 21 then ds @ replicate (nat (n - k)) (CHR ''0'')
      else if 0 < n \<and> n \<le> 21 then take (nat n) ds @ ''.'' @ drop (nat n) ds
      else if - 6 < n \<and> n \<le> 0 then ''0.'' @ replicate (nat (- n)) (CHR ''0'') @ ds
      else sci_notation ds (n - 1))"

function norm_dec :: "int \<Rightarrow> int \<Rightarrow> jsnum" where
  "norm_dec m e =
     (if m = 0 then Fin 0
      else if 0 \<le> e then Fin (m * 10 ^ nat e)
      else if m mod 10 = 0 then norm_dec (m div 10) (e + 1)
      else Dec m (nat (- e)))"
  by pat_completeness auto
termination
  by (relation "measure (\<lambda>(m, e). nat (- e))") auto

declare norm_dec.simps [simp del]

fun Number_toString :: "jsnum \<Rightarrow> string" where
  "Number_toString NaN = ''NaN''"
| "Number_toString PosInf = ''Infinity''"
| "Number_toString NegInf = ''-Infinity''"
| "Number_toString (Fin i) =
     (if \<bar>i\<bar> < 10 ^ 21 then int_to_string i
      else (if i < 0 then ''-'' else '''')
           @ sci_notation (strip_zeros (nat_digits (nat \<bar>i\<bar>)))
               (int (length (nat_digits (nat \<bar>i\<bar>))) - 1))"
| "Number_toString (Dec m j) =
     (case norm_dec m (- int j) of
        Dec m' j' \<Rightarrow>
          (if m' < 0 then ''-'' else '''')
          @ decimal_to_string (nat_digits (nat \<bar>m'\<bar>))
              (int (length (nat_digits (nat \<bar>m'\<bar>))) - int j')
      | Fin i \<Rightarrow> int_to_string i
      | _ \<Rightarrow> ''NaN'')"

section \<open>Base64: btoa and atob\<close>

definition b64_char :: "nat \<Rightarrow> char" where
  "b64_char n =
     (if n < 26 then char_of (65 + n)
      else if n < 52 then char_of (71 + n)
      else if n < 62 then char_of (n - 4)
      else if n = 62 then CHR ''+'' else CHR ''/'')"

definition b64_val :: "char \<Rightarrow> nat option" where
  "b64_val c =
     (let n = (of_char c :: nat) in
      if 65 \<le> n \<and> n \<le> 90 then Some (n - 65)
      else if 97 \<le> n \<and> n \<le> 122 then Some (n - 71)
      else if 48 \<le> n \<and> n \<le> 57 then Some (n + 4)
      else if c = CHR ''+'' then Some 62
      else if c = CHR ''/'' then Some 63
      else None)"

fun btoa_groups :: "nat list \<Rightarrow> string" where
  "btoa_groups [] = []"
| "btoa_groups [a] =
     [b64_char (a div 4), b64_char ((a mod 4) * 16), CHR ''='', CHR ''='']"
| "btoa_groups [a, b] =
     [b64_char (a div 4), b64_char ((a mod 4) * 16 + b div 16),
      b64_char ((b mod 16) * 4), CHR ''='']"
| "btoa_groups (a # b # c # r) =
     b64_char (a div 4) # b64_char ((a mod 4) * 16 + b div 16)
       # b64_char ((b mod 16) * 4 + c div 64) # b64_char (c mod 64) # btoa_groups r"

text \<open>
  \<open>btoa\<close> raises on a code unit above 255; code units are 8-bit here, so it is total.
\<close>

definition btoa :: "string \<Rightarrow> string" where
  "btoa binary = btoa_groups (map of_char binary)"

definition ascii_whitespace :: "char \<Rightarrow> bool" where
  "ascii_whitespace c =
     (c = CHR 0x09 \<or> c = CHR 0x0A \<or> c = CHR 0x0C \<or> c = CHR 0x0D \<or> c = CHR 0x20)"

definition strip_padding :: "string \<Rightarrow> string" where
  "strip_padding s =
     (if length s mod 4 = 0 then
        (if suffix ''=='' s then butlast (butlast s)
         else if suffix ''='' s then butlast s else s)
      else s)"

fun atob_groups :: "nat list \<Rightarrow> nat list" where
  "atob_groups (w # x # y # z # r) =
     (w * 4 + x div 16) # ((x mod 16) * 16 + y div 4) # ((y mod 4) * 64 + z) # atob_groups r"
| "atob_groups [w, x, y] = [w * 4 + x div 16, (x mod 16) * 16 + y div 4]"
| "atob_groups [w, x] = [w * 4 + x div 16]"
| "atob_groups _ = []"

text \<open>
  \<open>atob\<close> is the forgiving base64 decoder of the HTML standard: whitespace is dropped,
  one or two padding characters are removed from an input whose length is a multiple
  of four, and a remaining length of 1 modulo 4 or a character outside the alphabet
  raises InvalidCharacterError.
\<close>

definition atob :: "string \<Rightarrow> js_error + string" where
  "atob s =
     (let d = strip_padding (filter (\<lambda>c. \<not> ascii_whitespace c) s) in
      if length d mod 4 = 1 then Inl InvalidCharacterError
      else (case those (map b64_val d) of
              None \<Rightarrow> Inl InvalidCharacterError
            | Some vs \<Rightarrow> Inr (map char_of (atob_groups vs))))"

definition arrayBufferToBase64 :: "byte list \<Rightarrow> string" where
  "arrayBufferToBase64 buffer = btoa (map (\<lambda>b. char_of (unat b)) buffer)"

definition base64ToArrayBuffer :: "string \<Rightarrow> js_error + byte list" where
  "base64ToArrayBuffer base64 =
     (case atob base64 of
        Inl e \<Rightarrow> Inl e
      | Inr binary \<Rightarrow> Inr (map (\<lambda>c. word_of_nat (of_char c)) binary))"

text \<open>
  \<open>blobToBase64\<close> reads the blob as a data URL and keeps what follows the first comma
  (the whole URL when \<open>indexOf\<close> finds none).
\<close>

definition slice_after_comma :: "string \<Rightarrow> string" where
  "slice_after_comma dataUrl =
     (if CHR '','' \<in> set dataUrl then tl (dropWhile (\<lambda>c. c \<noteq> CHR '','') dataUrl)
      else dataUrl)"

definition readAsDataURL :: "byte list \<Rightarrow> string \<Rightarrow> string" where
  "readAsDataURL bs ty =
     ''data:'' @ (if ty = [] then ''application/octet-stream'' else ty)
       @ '';base64,'' @ arrayBufferToBase64 bs"

definition blobToBase64 :: "byte list \<Rightarrow> string \<Rightarrow> string" where
  "blobToBase64 bs ty = slice_after_comma (readAsDataURL bs ty)"

section \<open>JSON text\<close>

text \<open>
  \<open>JSON.stringify\<close> is called on three shapes only: a primitive, the array or object
  \<open>out\<close> of already serialized strings, and the object of FlatStore entries. Its
  quoting of a string escapes the quotation mark, the backslash and the control
  characters below 0x20.
\<close>

definition hex_digit :: "nat \<Rightarrow> char" where
  "hex_digit n = ''0123456789abcdef'' ! n"

definition json_escape :: "char \<Rightarrow> string" where
  "json_escape c =
     (if c = CHR 0x22 then [CHR 0x5C, CHR 0x22]
      else if c = CHR 0x5C then [CHR 0x5C, CHR 0x5C]
      else if c = CHR 0x08 then [CHR 0x5C, CHR ''b'']
      else if c = CHR 0x0C then [CHR 0x5C, CHR ''f'']
      else if c = CHR 0x0A then [CHR 0x5C, CHR ''n'']
      else if c = CHR 0x0D then [CHR 0x5C, CHR ''r'']
      else if c = CHR 0x09 then [CHR 0x5C, CHR ''t'']
      else if (of_char c :: nat) < 32 then
        [CHR 0x5C, CHR ''u'', CHR ''0'', CHR ''0'',
         hex_digit (of_char c div 16), hex_digit (of_char c mod 16)]
      else [c])"

definition json_quote :: "string \<Rightarrow> string" where
  "json_quote s = CHR 0x22 # concat (map json_escape s) @ [CHR 0x22]"

fun join_comma :: "string list \<Rightarrow> string" where
  "join_comma [] = []"
| "join_comma [x] = x"
| "join_comma (x # y # r) = x @ CHR '','' # join_comma (y # r)"

definition JSON_stringify_array :: "string list \<Rightarrow> string" where
  "JSON_stringify_array out = CHR ''['' # join_comma (map json_quote out) @ '']''"

definition JSON_stringify_object :: "(string \<times> string) list \<Rightarrow> string" where
  "JSON_stringify_object out =
     CHR ''{'' # join_comma (map (\<lambda>(k, v). json_quote k @ CHR '':'' # json_quote v) out) @ ''}''"

text \<open>
  \<open>JSON.stringify\<close> of a number prints \<open>null\<close> for NaN and the infinities.
\<close>

fun JSON_stringify_number :: "jsnum \<Rightarrow> string" where
  "JSON_stringify_number NaN = ''null''"
| "JSON_stringify_number PosInf = ''null''"
| "JSON_stringify_number NegInf = ''null''"
| "JSON_stringify_number x = Number_toString x"

subsection \<open>The lexer of JSON.parse\<close>

datatype token =
    TLBrace | TRBrace | TLBrack | TRBrack | TColon | TComma
  | TTrue | TFalse | TNull | TNum jsnum | TStr string

definition is_digit :: "char \<Rightarrow> bool" where
  "is_digit c = (48 \<le> (of_char c :: nat) \<and> (of_char c :: nat) \<le> 57)"

definition digits_val :: "string \<Rightarrow> nat" where
  "digits_val ds = foldl (\<lambda>a c. a * 10 + (of_char c - 48)) 0 ds"

definition hex_val :: "char \<Rightarrow> nat option" where
  "hex_val c =
     (let n = (of_char c :: nat) in
      if 48 \<le> n \<and> n \<le> 57 then Some (n - 48)
      else if 97 \<le> n \<and> n \<le> 102 then Some (n - 87)
      else if 65 \<le> n \<and> n \<le> 70 then Some (n - 55)
      else None)"

definition unescape :: "char \<Rightarrow> char option" where
  "unescape e =
     (if e = CHR 0x22 then Some (CHR 0x22)
      else if e = CHR 0x5C then Some (CHR 0x5C)
      else if e = CHR ''/'' then Some (CHR ''/'')
      else if e = CHR ''b'' then Some (CHR 0x08)
      else if e = CHR ''f'' then Some (CHR 0x0C)
      else if e = CHR ''n'' then Some (CHR 0x0A)
      else if e = CHR ''r'' then Some (CHR 0x0D)
      else if e = CHR ''t'' then Some (CHR 0x09)
      else None)"

text \<open>
  \<open>scan_string\<close> reads a string literal after its opening quotation mark and returns
  the string it denotes with the text after the closing mark. An escape \<open>\uXXXX\<close> above
  0x00FF denotes a code unit outside the 8-bit strings of this model and is refused.
\<close>

fun scan_string :: "string \<Rightarrow> (string \<times> string) option" where
  "scan_string [] = None"
| "scan_string (c # cs) =
     (if c = CHR 0x22 then Some ([], cs)
      else if c = CHR 0x5C then
        (case cs of
           [] \<Rightarrow> None
         | e # r \<Rightarrow>
            (if e = CHR ''u'' then
               (case r of
                  h1 # h2 # h3 # h4 # r' \<Rightarrow>
                    (case (hex_val h1, hex_val h2, hex_val h3, hex_val h4) of
                       (Some a, Some b, Some c', Some d) \<Rightarrow>
                         (let n = ((a * 16 + b) * 16 + c') * 16 + d in
                          if n < 256 then
                            (case scan_string r' of
                               None \<Rightarrow> None
                             | Some (s, rest) \<Rightarrow> Some (char_of n # s, rest))
                          else None)
                     | _ \<Rightarrow> None)
                | _ \<Rightarrow> None)
             else
               (case unescape e of
                  None \<Rightarrow> None
                | Some ch \<Rightarrow>
                   (case scan_string r of
                      None \<Rightarrow> None
                    | Some (s, rest) \<Rightarrow> Some (ch # s, rest)))))
      else if (of_char c :: nat) < 32 then None
      else
        (case scan_string cs of
           None \<Rightarrow> None
         | Some (s, rest) \<Rightarrow> Some (c # s, rest)))"

text \<open>
  A number literal: an optional minus sign, an integer part without a leading zero, an
  optional fraction and an optional exponent. Its value is the exact decimal.
\<close>

definition scan_exponent :: "string \<Rightarrow> (int \<times> string) option" where
  "scan_exponent s =
     (case s of
        [] \<Rightarrow> Some (0, s)
      | c # r \<Rightarrow>
         (if c = CHR ''e'' \<or> c = CHR ''E'' then
            (let (neg, r1) =
                   (case r of
                      [] \<Rightarrow> (False, r)
                    | d # r' \<Rightarrow>
                       (if d = CHR ''-'' then (True, r')
                        else if d = CHR ''+'' then (False, r') else (False, r)));
                 ep = takeWhile is_digit r1
             in if ep = [] then None
                else Some ((if neg then - int (digits_val ep) else int (digits_val ep)),
                           dropWhile is_digit r1))
          else Some (0, s)))"

definition scan_fraction :: "string \<Rightarrow> (string \<times> string) option" where
  "scan_fraction s =
     (case s of
        [] \<Rightarrow> Some ([], s)
      | c # r \<Rightarrow>
         (if c = CHR ''.'' then
            (let fp = takeWhile is_digit r in
             if fp = [] then None else Some (fp, dropWhile is_digit r))
          else Some ([], s)))"

definition scan_number :: "string \<Rightarrow> (jsnum \<times> string) option" where
  "scan_number s =
     (let (neg, s1) = (case s of [] \<Rightarrow> (False, s)
                       | c # r \<Rightarrow> (if c = CHR ''-'' then (True, r) else (False, s)));
          ip = takeWhile is_digit s1
      in if ip = [] \<or> (1 < length ip \<and> hd ip = CHR ''0'') then None
         else (case scan_fraction (dropWhile is_digit s1) of
                 None \<Rightarrow> None
               | Some (fp, s3) \<Rightarrow>
                  (case scan_exponent s3 of
                     None \<Rightarrow> None
                   | Some (ex, s4) \<Rightarrow>
                      (let m = int (digits_val (ip @ fp))
                       in Some (norm_dec (if neg then - m else m) (ex - int (length fp)), s4)))))"

definition json_whitespace :: "char \<Rightarrow> bool" where
  "json_whitespace c = (c = CHR 0x20 \<or> c = CHR 0x09 \<or> c = CHR 0x0A \<or> c = CHR 0x0D)"

lemma scan_string_rest: "scan_string cs = Some (s, rest) \<Longrightarrow> length s + length rest < length cs"
proof (induction "length cs" arbitrary: cs s rest rule: less_induct)
  case less
  have IH: "\<And>cs' s' rest'. length cs' < length cs \<Longrightarrow> scan_string cs' = Some (s', rest')
      \<Longrightarrow> length s' + length rest' < length cs'"
    using less.hyps by blast
  show ?case
  proof (cases cs)
    case Nil
    with less.prems show ?thesis by simp
  next
    case (Cons c cs')
    with less.prems show ?thesis
      apply (simp split: if_splits list.splits option.splits prod.splits add: Let_def)
      apply (auto dest!: IH[rotated] simp: Cons)
      done
  qed
qed

lemma scan_fraction_rest: "scan_fraction s = Some (fp, r) \<Longrightarrow> length r \<le> length s"
  by (auto simp: scan_fraction_def Let_def split: list.splits if_splits
        intro: le_trans[OF length_dropWhile_le])

lemma scan_exponent_rest: "scan_exponent s = Some (ex, r) \<Longrightarrow> length r \<le> length s"
  by (auto simp: scan_exponent_def Let_def split: list.splits if_splits
        intro: le_trans[OF length_dropWhile_le] le_SucI)

lemma scan_number_rest: "scan_number (c # cs) = Some (x, rest) \<Longrightarrow> length rest \<le> length cs"
  using length_dropWhile_le[of is_digit cs]
  by (auto simp: scan_number_def Let_def split: if_splits option.splits
        dest!: scan_fraction_rest scan_exponent_rest)

subsection \<open>Tokens\<close>

text \<open>
  \<open>next_token c cs\<close> reads the token that starts with the character \<open>c\<close> (not a
  whitespace character) and returns it with the text that follows it.
\<close>

definition next_token :: "char \<Rightarrow> string \<Rightarrow> (token \<times> string) option" where
  "next_token c cs =
     (if c = CHR ''{'' then Some (TLBrace, cs)
      else if c = CHR ''}'' then Some (TRBrace, cs)
      else if c = CHR ''['' then Some (TLBrack, cs)
      else if c = CHR '']'' then Some (TRBrack, cs)
      else if c = CHR '':'' then Some (TColon, cs)
      else if c = CHR '','' then Some (TComma, cs)
      else if c = CHR 0x22 then
        (case scan_string cs of
           None \<Rightarrow> None
         | Some (s, rest) \<Rightarrow> Some (TStr s, rest))
      else if c = CHR ''-'' \<or> is_digit c then
        (case scan_number (c # cs) of
           None \<Rightarrow> None
         | Some (x, rest) \<Rightarrow> Some (TNum x, rest))
      else if prefix ''true'' (c # cs) then Some (TTrue, drop 3 cs)
      else if prefix ''false'' (c # cs) then Some (TFalse, drop 4 cs)
      else if prefix ''null'' (c # cs) then Some (TNull, drop 3 cs)
      else None)"


lemma next_token_rest: "next_token c cs = Some (t, rest) \<Longrightarrow> length rest \<le> length cs"
  unfolding next_token_def
  apply (simp split: if_splits option.splits prod.splits)
  subgoal for x2 x1 using scan_string_rest[of cs x1 rest] by simp
  subgoal for x2 x1 using scan_number_rest[of c cs x1 rest] by simp
  subgoal by (metis length_drop diff_le_self)
  subgoal by (metis length_drop diff_le_self)
  subgoal by (metis length_drop diff_le_self)
  done

lemma next_token_TStr: "next_token c cs = Some (TStr s, rest) \<Longrightarrow> length s < length cs"
  unfolding next_token_def
  apply (simp split: if_splits option.splits prod.splits)
  subgoal using scan_string_rest[of cs s rest] by simp
  done

function lex :: "string \<Rightarrow> token list option" where
  "lex [] = Some []"
| "lex (c # cs) =
     (if json_whitespace c then lex cs
      else (case next_token c cs of
              None \<Rightarrow> None
            | Some (t, rest) \<Rightarrow> map_option ((#) t) (lex rest)))"
  by pat_completeness auto
termination lex
  apply (relation "measure length")
    apply simp_all
  subgoal for c cs x2 x y using next_token_rest[of c cs x y] by simp
  done

declare lex.simps [simp del]

lemma lex_TStr_length: "lex s = Some ts \<Longrightarrow> TStr t \<in> set ts \<Longrightarrow> length t < length s"
proof (induction s arbitrary: ts rule: lex.induct)
  case 1
  then show ?case by (simp add: lex.simps)
next
  case (2 c cs)
  show ?case
  proof (cases "json_whitespace c")
    case True
    with "2.prems" have "lex cs = Some ts" by (simp add: lex.simps)
    from "2.IH"(1)[OF True this "2.prems"(2)] show ?thesis by simp
  next
    case False
    with "2.prems"(1) obtain tok rest ts' where
      nt: "next_token c cs = Some (tok, rest)" and l: "lex rest = Some ts'" and ts: "ts = tok # ts'"
      by (auto simp: lex.simps split: option.splits)
    from "2.prems"(2) ts consider "tok = TStr t" | "TStr t \<in> set ts'" by auto
    then show ?thesis
    proof cases
      case 1
      with nt have "length t < length cs" by (auto dest: next_token_TStr)
      then show ?thesis by simp
    next
      case 2
      have "length t < length rest"
        using "2.IH"(2)[OF False nt refl l 2] .
      with next_token_rest[OF nt] show ?thesis by simp
    qed
  qed
qed

subsection \<open>The parser of JSON.parse\<close>

text \<open>
  A repeated member name keeps its first position and its last value. The test
  \<open>length r' < length ts\<close> before a recursive call on the rest of the input makes the
  recursion well-founded; the rest is always shorter, so the test never fails.
\<close>

definition object_of :: "(string \<times> jsval) list \<Rightarrow> (string \<times> jsval) list" where
  "object_of ps = fold (\<lambda>(k, v) obj. AList.update k v obj) ps []"

function parse_value :: "token list \<Rightarrow> (jsval \<times> token list) option"
  and parse_elems :: "token list \<Rightarrow> (jsval list \<times> token list) option"
  and parse_members :: "token list \<Rightarrow> ((string \<times> jsval) list \<times> token list) option"
where
  "parse_value ts =
     (case ts of
        [] \<Rightarrow> None
      | t # r \<Rightarrow>
         (case t of
            TNull \<Rightarrow> Some (JNull, r)
          | TTrue \<Rightarrow> Some (JBool True, r)
          | TFalse \<Rightarrow> Some (JBool False, r)
          | TNum x \<Rightarrow> Some (JNum x, r)
          | TStr s \<Rightarrow> Some (JStr s, r)
          | TLBrack \<Rightarrow>
             (if r \<noteq> [] \<and> hd r = TRBrack then Some (JArr [], tl r)
              else (case parse_elems r of
                      None \<Rightarrow> None
                    | Some (vs, r') \<Rightarrow> Some (JArr vs, r')))
          | TLBrace \<Rightarrow>
             (if r \<noteq> [] \<and> hd r = TRBrace then Some (JObj [], tl r)
              else (case parse_members r of
                      None \<Rightarrow> None
                    | Some (ps, r') \<Rightarrow> Some (JObj (object_of ps), r')))
          | _ \<Rightarrow> None))"
| "parse_elems ts =
     (case parse_value ts of
        None \<Rightarrow> None
      | Some (v, r) \<Rightarrow>
         (case r of
            [] \<Rightarrow> None
          | t # r' \<Rightarrow>
             (if t = TRBrack then Some ([v], r')
              else if t = TComma \<and> length r' < length ts then
                (case parse_elems r' of
                   None \<Rightarrow> None
                 | Some (vs, r'') \<Rightarrow> Some (v # vs, r''))
              else None)))"
| "parse_members ts =
     (case ts of
        TStr k # TColon # r \<Rightarrow>
         (case parse_value r of
            None \<Rightarrow> None
          | Some (v, r1) \<Rightarrow>
             (case r1 of
                [] \<Rightarrow> None
              | t # r2 \<Rightarrow>
                 (if t = TRBrace then Some ([(k, v)], r2)
                  else if t = TComma \<and> length r2 < length ts then
                    (case parse_members r2 of
                       None \<Rightarrow> None
                     | Some (ps, r3) \<Rightarrow> Some ((k, v) # ps, r3))
                  else None)))
      | _ \<Rightarrow> None)"
  by pat_completeness auto
termination
  by (relation "measure (\<lambda>x. case x of
          Inl ts \<Rightarrow> 2 * length ts
        | Inr (Inl ts) \<Rightarrow> 2 * length ts + 1
        | Inr (Inr ts) \<Rightarrow> 2 * length ts + 1)") auto

declare parse_value.simps [simp del] parse_elems.simps [simp del] parse_members.simps [simp del]

definition JSON_parse :: "string \<Rightarrow> js_error + jsval" where
  "JSON_parse text =
     (case lex text of
        None \<Rightarrow> Inl SyntaxError
      | Some ts \<Rightarrow>
         (case parse_value ts of
            None \<Rightarrow> Inl SyntaxError
          | Some (v, r) \<Rightarrow> if r = [] then Inr v else Inl SyntaxError))"

lemma parse_elems_Some:
  assumes "parse_elems ts = Some (vs, r)"
  obtains v where "parse_value ts = Some (v, TRBrack # r)" "vs = [v]"
  | v r' vs' where "parse_value ts = Some (v, TComma # r')" "length r' < length ts"
      "parse_elems r' = Some (vs', r)" "vs = v # vs'"
  using assms[unfolded parse_elems.simps[of ts]] that
  by (auto split: list.splits if_splits option.splits prod.splits)

lemma parse_members_Some:
  assumes "parse_members ts = Some (ps, r)"
  obtains k rr v where "ts = TStr k # TColon # rr" "parse_value rr = Some (v, TRBrace # r)"
      "ps = [(k, v)]"
  | k rr v r2 ps' where "ts = TStr k # TColon # rr" "parse_value rr = Some (v, TComma # r2)"
      "length r2 < length ts" "parse_members r2 = Some (ps', r)" "ps = (k, v) # ps'"
  using assms[unfolded parse_members.simps[of ts]] that
  by (auto split: list.splits token.splits option.splits prod.splits if_splits)

lemma parse_value_Some:
  assumes "parse_value ts = Some (v, r)"
  obtains "ts = TNull # r" "v = JNull"
  | "ts = TTrue # r" "v = JBool True"
  | "ts = TFalse # r" "v = JBool False"
  | x where "ts = TNum x # r" "v = JNum x"
  | s where "ts = TStr s # r" "v = JStr s"
  | "ts = TLBrack # TRBrack # r" "v = JArr []"
  | r0 vs where "ts = TLBrack # r0" "parse_elems r0 = Some (vs, r)" "v = JArr vs"
  | "ts = TLBrace # TRBrace # r" "v = JObj []"
  | r0 ps where "ts = TLBrace # r0" "parse_members r0 = Some (ps, r)" "v = JObj (object_of ps)"
  using assms[unfolded parse_value.simps[of ts]] that
  by (auto split: list.splits token.splits option.splits prod.splits if_splits simp: neq_Nil_conv)
lemma parse_rest_all:
  "(\<forall>v r. parse_value ts = Some (v, r) \<longrightarrow> length r < length ts \<and> suffix r ts) \<and>
   (\<forall>vs r. parse_elems ts = Some (vs, r) \<longrightarrow> length r < length ts \<and> suffix r ts) \<and>
   (\<forall>ps r. parse_members ts = Some (ps, r) \<longrightarrow> length r < length ts \<and> suffix r ts)"
proof (induction "length ts" arbitrary: ts rule: less_induct)
  case less
  have V: "length r < length ts \<and> suffix r ts" if a: "parse_value ts = Some (v, r)" for v r
    using a
  proof (cases rule: parse_value_Some)
    case (7 r0 vs)
    with less.hyps[of r0] show ?thesis by (auto simp: suffix_Cons)
  next
    case (9 r0 ps)
    with less.hyps[of r0] show ?thesis by (auto simp: suffix_Cons)
  qed (auto simp: suffix_Cons)
  have E: "length r < length ts \<and> suffix r ts" if a: "parse_elems ts = Some (vs, r)" for vs r
    using a
  proof (cases rule: parse_elems_Some)
    case (1 v)
    from V[OF 1(1)] show ?thesis by (auto dest: suffix_ConsD)
  next
    case (2 v r' vs')
    from V[OF 2(1)] less.hyps[OF 2(2)] 2(3) show ?thesis
      by (auto dest: suffix_ConsD intro: suffix_order.trans)
  qed
  have M: "length r < length ts \<and> suffix r ts" if a: "parse_members ts = Some (ps, r)" for ps r
    using a
  proof (cases rule: parse_members_Some)
    case (1 k rr v)
    from less.hyps[of rr] 1 have "length (TRBrace # r) < length rr \<and> suffix (TRBrace # r) rr"
      by simp
    with 1 show ?thesis by (auto dest: suffix_ConsD simp: suffix_Cons)
  next
    case (2 k rr v r2 ps')
    from less.hyps[of rr] 2 have "suffix (TComma # r2) rr" by simp
    then have "suffix r2 ts" using 2(1) by (auto dest: suffix_ConsD simp: suffix_Cons)
    moreover from less.hyps[OF 2(3)] 2(4) have "length r < length r2 \<and> suffix r r2" by simp
    ultimately show ?thesis using 2(3) by (auto intro: suffix_order.trans)
  qed
  from V E M show ?case by blast
qed

lemma parse_value_rest: "parse_value ts = Some (v, r) \<Longrightarrow> length r < length ts"
  using parse_rest_all[of ts] by blast

text \<open>Hence the tests in \<open>parse_elems\<close> and \<open>parse_members\<close> never fail.\<close>

lemma parse_elems_unguarded:
  "parse_elems ts =
     (case parse_value ts of
        None \<Rightarrow> None
      | Some (v, r) \<Rightarrow>
         (case r of
            [] \<Rightarrow> None
          | t # r' \<Rightarrow>
             (if t = TRBrack then Some ([v], r')
              else if t = TComma then
                (case parse_elems r' of
                   None \<Rightarrow> None
                 | Some (vs, r'') \<Rightarrow> Some (v # vs, r''))
              else None)))"
  by (subst parse_elems.simps)
     (auto split: option.splits list.splits dest!: parse_value_rest)

lemma parse_members_unguarded:
  "parse_members ts =
     (case ts of
        TStr k # TColon # r \<Rightarrow>
         (case parse_value r of
            None \<Rightarrow> None
          | Some (v, r1) \<Rightarrow>
             (case r1 of
                [] \<Rightarrow> None
              | t # r2 \<Rightarrow>
                 (if t = TRBrace then Some ([(k, v)], r2)
                  else if t = TComma then
                    (case parse_members r2 of
                       None \<Rightarrow> None
                     | Some (ps, r3) \<Rightarrow> Some ((k, v) # ps, r3))
                  else None)))
      | _ \<Rightarrow> None)"
  by (subst parse_members.simps)
     (auto split: option.splits list.splits token.splits dest!: parse_value_rest)

subsection \<open>The string leaves of a parsed value are shorter than the text\<close>

fun leaves :: "jsval \<Rightarrow> string list"
  and leaves_list :: "jsval list \<Rightarrow> string list"
  and leaves_props :: "(string \<times> jsval) list \<Rightarrow> string list"
where
  "leaves (JStr t) = [t]"
| "leaves (JArr xs) = leaves_list xs"
| "leaves (JObj ps) = leaves_props ps"
| "leaves _ = []"
| "leaves_list [] = []"
| "leaves_list (x # xs) = leaves x @ leaves_list xs"
| "leaves_props [] = []"
| "leaves_props (p # ps) = leaves (snd p) @ leaves_props ps"

lemma leaves_props_set: "set (leaves_props ps) = (\<Union>p \<in> set ps. set (leaves (snd p)))"
  by (induction ps) auto

lemma leaves_list_set: "set (leaves_list xs) = (\<Union>x \<in> set xs. set (leaves x))"
  by (induction xs) auto

lemma set_update_subset: "set (AList.update k v al) \<subseteq> insert (k, v) (set al)"
  by (induction al) auto

lemma set_fold_update_subset:
  "set (fold (\<lambda>(k, v) obj. AList.update k v obj) ps acc) \<subseteq> set ps \<union> set acc"
proof (induction ps arbitrary: acc)
  case Nil
  then show ?case by simp
next
  case (Cons p ps)
  obtain k v where p: "p = (k, v)" by (cases p)
  from Cons[of "AList.update k v acc"] set_update_subset[of k v acc] show ?case
    by (auto simp: p)
qed

lemma leaves_object_of: "set (leaves_props (object_of ps)) \<subseteq> set (leaves_props ps)"
  using set_fold_update_subset[of ps "[]"]
  by (fastforce simp: leaves_props_set object_of_def)

lemma parse_leaves_all:
  "(\<forall>v r t. parse_value ts = Some (v, r) \<longrightarrow> t \<in> set (leaves v) \<longrightarrow> TStr t \<in> set ts) \<and>
   (\<forall>vs r t. parse_elems ts = Some (vs, r) \<longrightarrow> t \<in> set (leaves_list vs) \<longrightarrow> TStr t \<in> set ts) \<and>
   (\<forall>ps r t. parse_members ts = Some (ps, r) \<longrightarrow> t \<in> set (leaves_props ps) \<longrightarrow> TStr t \<in> set ts)"
proof (induction "length ts" arbitrary: ts rule: less_induct)
  case less
  have V: "TStr t \<in> set ts"
    if a: "parse_value ts = Some (v, r)" and t: "t \<in> set (leaves v)" for v r t
    using a
  proof (cases rule: parse_value_Some)
    case (7 r0 vs)
    with less.hyps[of r0] t show ?thesis by auto
  next
    case (9 r0 ps)
    with less.hyps[of r0] t leaves_object_of[of ps] show ?thesis by auto
  qed (use t in auto)
  have sub: "set r \<subseteq> set ts" if "parse_value ts = Some (v, r)" for v r
    using parse_rest_all[of ts] that by (auto dest: set_mono_suffix)
  have E: "TStr t \<in> set ts"
    if a: "parse_elems ts = Some (vs, r)" and t: "t \<in> set (leaves_list vs)" for vs r t
    using a
  proof (cases rule: parse_elems_Some)
    case (1 v)
    with V[OF 1(1)] t show ?thesis by auto
  next
    case (2 v r' vs')
    from t 2(4) consider "t \<in> set (leaves v)" | "t \<in> set (leaves_list vs')" by auto
    then show ?thesis
    proof cases
      case 1
      then show ?thesis using V[OF 2(1)] by simp
    next
      case 2
      with less.hyps[OF \<open>length r' < length ts\<close>] \<open>parse_elems r' = Some (vs', r)\<close>
      have "TStr t \<in> set r'" by blast
      with sub[OF \<open>parse_value ts = Some (v, TComma # r')\<close>] show ?thesis by auto
    qed
  qed
  have M: "TStr t \<in> set ts"
    if a: "parse_members ts = Some (ps, r)" and t: "t \<in> set (leaves_props ps)" for ps r t
    using a
  proof (cases rule: parse_members_Some)
    case (1 k rr v)
    with less.hyps[of rr] t show ?thesis by auto
  next
    case (2 k rr v r2 ps')
    note outer = 2
    from t 2(5) consider "t \<in> set (leaves v)" | "t \<in> set (leaves_props ps')" by auto
    then show ?thesis
    proof cases
      case 1
      with less.hyps[of rr] 2(1,2) show ?thesis by auto
    next
      case 2
      with less.hyps[OF \<open>length r2 < length ts\<close>] \<open>parse_members r2 = Some (ps', r)\<close>
      have "TStr t \<in> set r2" by blast
      moreover have "suffix (TComma # r2) rr"
        using parse_rest_all[of rr] \<open>parse_value rr = Some (v, TComma # r2)\<close> by blast
      then have "set (TComma # r2) \<subseteq> set rr" by (rule set_mono_suffix)
      ultimately show ?thesis using outer(1) by auto
    qed
  qed
  from V E M show ?case by blast
qed

lemma JSON_parse_leaves:
  "JSON_parse text = Inr v \<Longrightarrow> t \<in> set (leaves v) \<Longrightarrow> length t < length text"
  using parse_leaves_all lex_TStr_length
  by (fastforce simp: JSON_parse_def split: option.splits if_splits)

section \<open>The codec\<close>

definition getTime :: "int option \<Rightarrow> jsnum" where
  "getTime t = (case t of None \<Rightarrow> NaN | Some ms \<Rightarrow> Fin ms)"

text \<open>
  \<open>serializeForLocalStorage\<close>, in the order of its tests: null, undefined, Date,
  ArrayBuffer, view, Blob, object (array or plain object, each own property serialized
  on its own), primitive. \<open>JSON.stringify\<close> raises TypeError on a BigInt.

  For a plain object the pieces are collected by \<open>out[k] = ...\<close> on a fresh \<open>{}\<close>. With
  \<open>k\<close> the name \<open>__proto__\<close> this assignment calls the setter that \<open>Object.prototype\<close>
  has for that name; the piece is a string, which the setter ignores, so that property
  is serialized (an error of its value is raised all the same) and then not stored.
\<close>

fun serializeForLocalStorage :: "jsval \<Rightarrow> js_error + string"
  and serialize_elements :: "jsval list \<Rightarrow> js_error + string list"
  and serialize_properties :: "(string \<times> jsval) list \<Rightarrow> js_error + (string \<times> string) list"
where
  "serializeForLocalStorage JNull = Inr ''JS:__NULL__''"
| "serializeForLocalStorage JUndefined = Inr ''JS:__UNDEFINED__''"
| "serializeForLocalStorage (JDate t) = Inr (''DATE:'' @ Number_toString (getTime t))"
| "serializeForLocalStorage (JArrayBuffer buffer) = Inr (''AB:'' @ arrayBufferToBase64 buffer)"
| "serializeForLocalStorage (JView k buffer byteOffset byteLength) =
     Inr (''TA:'' @ ctorName k @ '':'' @ arrayBufferToBase64 buffer)"
| "serializeForLocalStorage (JBlob bs ty) = Inr (''BL:'' @ blobToBase64 bs ty)"
| "serializeForLocalStorage (JArr xs) =
     (case serialize_elements xs of
        Inl e \<Rightarrow> Inl e
      | Inr out \<Rightarrow> Inr (''OBJ:'' @ JSON_stringify_array out))"
| "serializeForLocalStorage (JObj ps) =
     (case serialize_properties ps of
        Inl e \<Rightarrow> Inl e
      | Inr out \<Rightarrow> Inr (''OBJ:'' @ JSON_stringify_object out))"
| "serializeForLocalStorage (JBool b) = Inr (''JS:'' @ (if b then ''true'' else ''false''))"
| "serializeForLocalStorage (JNum x) = Inr (''JS:'' @ JSON_stringify_number x)"
| "serializeForLocalStorage (JStr s) = Inr (''JS:'' @ json_quote s)"
| "serializeForLocalStorage (JBigInt i) = Inl TypeError"
| "serialize_elements [] = Inr []"
| "serialize_elements (x # xs) =
     (case serializeForLocalStorage x of
        Inl e \<Rightarrow> Inl e
      | Inr s \<Rightarrow>
         (case serialize_elements xs of
            Inl e \<Rightarrow> Inl e
          | Inr ss \<Rightarrow> Inr (s # ss)))"
| "serialize_properties [] = Inr []"
| "serialize_properties (p # ps) =
     (case serializeForLocalStorage (snd p) of
        Inl e \<Rightarrow> Inl e
      | Inr s \<Rightarrow>
         (case serialize_properties ps of
            Inl e \<Rightarrow> Inl e
          | Inr ss \<Rightarrow> Inr (if fst p = ''__proto__'' then ss else (fst p, s) # ss)))"

text \<open>
  \<open>rev\<close>, the local function of the OBJ branch of the decoder: null stays, a string
  is a serialized piece and is decoded by \<open>f\<close>, arrays and objects are traversed, any
  other value stays.

  An object is rebuilt by \<open>o[p] = rev(v[p])\<close> on a fresh \<open>{}\<close>. With \<open>p\<close> the name
  \<open>__proto__\<close> the assignment calls the setter of \<open>Object.prototype\<close>: a primitive is
  ignored, an object or null becomes the prototype of \<open>o\<close>. Either way \<open>o\<close> gets no own
  property of that name, and the member is decoded (its error is raised all the same) and
  then left out. The prototype of an object is not part of a value here; what a replaced
  prototype does to the assignments that follow it (a binary value as prototype has
  accessors without setter, such as \<open>byteLength\<close>) is not modelled.
\<close>

fun rev_js :: "(string \<Rightarrow> js_error + jsval) \<Rightarrow> jsval \<Rightarrow> js_error + jsval"
  and rev_js_list :: "(string \<Rightarrow> js_error + jsval) \<Rightarrow> jsval list \<Rightarrow> js_error + jsval list"
  and rev_js_props :: "(string \<Rightarrow> js_error + jsval) \<Rightarrow> (string \<times> jsval) list
        \<Rightarrow> js_error + (string \<times> jsval) list"
where
  "rev_js f JNull = Inr JNull"
| "rev_js f (JStr t) = f t"
| "rev_js f (JArr xs) =
     (case rev_js_list f xs of Inl e \<Rightarrow> Inl e | Inr ys \<Rightarrow> Inr (JArr ys))"
| "rev_js f (JObj ps) =
     (case rev_js_props f ps of Inl e \<Rightarrow> Inl e | Inr qs \<Rightarrow> Inr (JObj qs))"
| "rev_js f v = Inr v"
| "rev_js_list f [] = Inr []"
| "rev_js_list f (x # xs) =
     (case rev_js f x of
        Inl e \<Rightarrow> Inl e
      | Inr y \<Rightarrow>
         (case rev_js_list f xs of Inl e \<Rightarrow> Inl e | Inr ys \<Rightarrow> Inr (y # ys)))"
| "rev_js_props f [] = Inr []"
| "rev_js_props f (p # ps) =
     (case rev_js f (snd p) of
        Inl e \<Rightarrow> Inl e
      | Inr y \<Rightarrow>
         (case rev_js_props f ps of
            Inl e \<Rightarrow> Inl e
          | Inr qs \<Rightarrow> Inr (if fst p = ''__proto__'' then qs else (fst p, y) # qs)))"

lemma rev_js_cong_all:
  "(\<forall>t \<in> set (leaves v). f t = g t) \<Longrightarrow> rev_js f v = rev_js g v"
  "(\<forall>t \<in> set (leaves_list xs). f t = g t) \<Longrightarrow> rev_js_list f xs = rev_js_list g xs"
  "(\<forall>t \<in> set (leaves_props ps). f t = g t) \<Longrightarrow> rev_js_props f ps = rev_js_props g ps"
  by (induction v and xs and ps rule: leaves_leaves_list_leaves_props.induct)
     (auto split: sum.splits)

lemma rev_js_cong [fundef_cong]:
  "v = v' \<Longrightarrow> (\<And>t. t \<in> set (leaves v') \<Longrightarrow> f t = g t) \<Longrightarrow> rev_js f v = rev_js g v'"
  using rev_js_cong_all(1)[of v' f g] by auto

text \<open>
  \<open>Number(str)\<close> on a string: surrounding whitespace is dropped; the empty string is 0;
  then a signed \<open>Infinity\<close>, a signed decimal literal (digits, an optional fraction, an
  optional exponent) or an unsigned literal with a radix prefix; anything else is NaN.
\<close>

definition js_whitespace :: "char \<Rightarrow> bool" where
  "js_whitespace c =
     (c = CHR 0x09 \<or> c = CHR 0x0A \<or> c = CHR 0x0B \<or> c = CHR 0x0C \<or> c = CHR 0x0D
      \<or> c = CHR 0x20 \<or> c = CHR 0xA0)"

definition trim :: "string \<Rightarrow> string" where
  "trim s = rev (dropWhile js_whitespace (rev (dropWhile js_whitespace s)))"

definition radix_digits :: "nat \<Rightarrow> string \<Rightarrow> jsnum" where
  "radix_digits b ds =
     (case those (map hex_val ds) of
        None \<Rightarrow> NaN
      | Some vs \<Rightarrow>
         (if vs = [] \<or> (\<exists>d \<in> set vs. b \<le> d) then NaN
          else Fin (int (foldl (\<lambda>a d. a * b + d) 0 vs))))"

definition decimal_literal :: "bool \<Rightarrow> string \<Rightarrow> jsnum" where
  "decimal_literal neg body =
     (let ip = takeWhile is_digit body;
          r1 = dropWhile is_digit body;
          fp = (case r1 of [] \<Rightarrow> [] | c # r \<Rightarrow> if c = CHR ''.'' then takeWhile is_digit r else []);
          r2 = (case r1 of [] \<Rightarrow> [] | c # r \<Rightarrow> if c = CHR ''.'' then dropWhile is_digit r else r1)
      in if ip = [] \<and> fp = [] then NaN
         else (case scan_exponent r2 of
                 None \<Rightarrow> NaN
               | Some (ex, r3) \<Rightarrow>
                  (if r3 \<noteq> [] then NaN
                   else (let m = int (digits_val (ip @ fp))
                         in norm_dec (if neg then - m else m) (ex - int (length fp))))))"

definition Number_js :: "string \<Rightarrow> jsnum" where
  "Number_js str =
     (let s = trim str in
      if s = [] then Fin 0
      else if prefix ''0x'' s \<or> prefix ''0X'' s then radix_digits 16 (drop 2 s)
      else if prefix ''0o'' s \<or> prefix ''0O'' s then radix_digits 8 (drop 2 s)
      else if prefix ''0b'' s \<or> prefix ''0B'' s then radix_digits 2 (drop 2 s)
      else (let neg = (hd s = CHR ''-'');
                body = (if hd s = CHR ''-'' \<or> hd s = CHR ''+'' then tl s else s)
            in if body = ''Infinity'' then (if neg then NegInf else PosInf)
               else decimal_literal neg body))"

text \<open>
  \<open>new Date(number)\<close>: the time value is clipped to the range of dates and truncated
  to an integer; NaN and numbers out of range give an invalid date.
\<close>

definition newDate :: "jsnum \<Rightarrow> int option" where
  "newDate x =
     (case x of
        Fin i \<Rightarrow> if \<bar>i\<bar> \<le> 8640000000000000 then Some i else None
      | Dec m j \<Rightarrow>
         (if \<bar>m\<bar> \<le> 8640000000000000 * 10 ^ j
          then Some (if m < 0 then - ((- m) div 10 ^ j) else m div 10 ^ j)
          else None)
      | _ \<Rightarrow> None)"

text \<open>
  \<open>deserializeFromLocalStorage\<close>, in the order of its tests. \<open>atob\<close> and
  \<open>JSON.parse\<close> raise on a malformed payload and nothing in the function catches it;
  only the construction of the view is inside a \<open>try\<close>, and the constructor of a view
  raises when the buffer is not a whole number of elements.
\<close>

function deserializeFromLocalStorage :: "string \<Rightarrow> js_error + jsval" where
  "deserializeFromLocalStorage str =
     (if str = ''JS:__NULL__'' then Inr JNull
      else if str = ''JS:__UNDEFINED__'' then Inr JUndefined
      else if prefix ''AB:'' str then
        (case base64ToArrayBuffer (drop 3 str) of
           Inl e \<Rightarrow> Inl e
         | Inr ab \<Rightarrow> Inr (JArrayBuffer ab))
      else if prefix ''TA:'' str then
        (let rest = drop 3 str in
         if CHR '':'' \<notin> set rest then
           (case base64ToArrayBuffer rest of
              Inl e \<Rightarrow> Inl e
            | Inr ab \<Rightarrow> Inr (JArrayBuffer ab))
         else
           (let ctor = takeWhile (\<lambda>c. c \<noteq> CHR '':'') rest;
                b64 = tl (dropWhile (\<lambda>c. c \<noteq> CHR '':'') rest)
            in case base64ToArrayBuffer b64 of
                 Inl e \<Rightarrow> Inl e
               | Inr ab \<Rightarrow>
                  (case globalThisView ctor of
                     None \<Rightarrow> Inr (JArrayBuffer ab)
                   | Some T \<Rightarrow>
                      (if length ab mod bytesPerElement T = 0
                       then Inr (JView T ab 0 (length ab))
                       else Inr (JArrayBuffer ab)))))
      else if prefix ''BL:'' str then
        (case base64ToArrayBuffer (drop 3 str) of
           Inl e \<Rightarrow> Inl e
         | Inr ab \<Rightarrow> Inr (JBlob ab ''application/octet-stream''))
      else if prefix ''DATE:'' str then Inr (JDate (newDate (Number_js (drop 5 str))))
      else if prefix ''JS:'' str then JSON_parse (drop 3 str)
      else if prefix ''OBJ:'' str then
        (case JSON_parse (drop 4 str) of
           Inl e \<Rightarrow> Inl e
         | Inr inner \<Rightarrow> rev_js deserializeFromLocalStorage inner)
      else Inr (JStr str))"
  by pat_completeness auto
termination
  apply (relation "measure length")
   apply simp
  subgoal for str inner t using JSON_parse_leaves[of "drop 4 str" inner t] by simp
  done

declare deserializeFromLocalStorage.simps [simp del]

section \<open>Store and FlatStore\<close>

text \<open>
  The Store is the IndexedDB database \<open>/_savedata\<close> with its object store
  \<open>FILE_DATA\<close>: \<open>container\<close> is \<open>None\<close> while the object store does not exist.
  Opening the database may fail, and so may the version upgrade that creates a missing
  object store. Keys are strings. The index \<open>timestamp\<close> holds, for every value that
  is an object with a property \<open>timestamp\<close> that is a valid key, that property.
\<close>

record idb =
  openable :: bool
  upgradable :: bool
  container :: "(string \<times> jsval) list option"
  hasIndex :: bool

definition openDB :: "idb \<Rightarrow> js_error + idb" where
  "openDB d =
     (if \<not> openable d then Inl StoreUnavailable
      else (case container d of
              Some c \<Rightarrow> Inr d
            | None \<Rightarrow>
               (if upgradable d then Inr (d\<lparr>container := Some [], hasIndex := True\<rparr>)
                else Inl StoreUnavailable)))"

definition entries :: "idb \<Rightarrow> (string \<times> jsval) list" where
  "entries d = (case container d of None \<Rightarrow> [] | Some c \<Rightarrow> c)"

fun valid_key :: "jsval \<Rightarrow> bool" where
  "valid_key (JNum x) = (x \<noteq> NaN)"
| "valid_key (JStr s) = True"
| "valid_key (JDate t) = (t \<noteq> None)"
| "valid_key (JArrayBuffer b) = True"
| "valid_key (JView k b off len) = True"
| "valid_key (JArr xs) = list_all valid_key xs"
| "valid_key v = False"

definition timestamp_of :: "jsval \<Rightarrow> jsval option" where
  "timestamp_of v =
     (case v of
        JObj ps \<Rightarrow>
         (case map_of ps ''timestamp'' of
            None \<Rightarrow> None
          | Some t \<Rightarrow> if valid_key t then Some t else None)
      | _ \<Rightarrow> None)"

record alldata =
  keys :: "string list"
  vals :: "jsval list"
  timestamps :: "(string \<times> jsval) list"

definition getAllFromIndexedDB :: "idb \<Rightarrow> js_error + idb \<times> alldata" where
  "getAllFromIndexedDB d =
     (case openDB d of
        Inl e \<Rightarrow> Inl e
      | Inr d' \<Rightarrow>
         Inr (d', \<lparr>keys = map fst (entries d'),
                   vals = map snd (entries d'),
                   timestamps =
                     (if hasIndex d' then
                        List.map_filter
                          (\<lambda>(k, v). case timestamp_of v of None \<Rightarrow> None | Some t \<Rightarrow> Some (k, t))
                          (entries d')
                      else [])\<rparr>))"

definition saveToIndexedDB :: "string \<Rightarrow> jsval \<Rightarrow> idb \<Rightarrow> js_error + idb" where
  "saveToIndexedDB key data d =
     (case openDB d of
        Inl e \<Rightarrow> Inl e
      | Inr d' \<Rightarrow> Inr (d'\<lparr>container := Some (AList.update key data (entries d'))\<rparr>))"

text \<open>
  The FlatStore is localStorage: string keys and string values, in the order \<open>key(i)\<close>
  enumerates them. \<open>setItem\<close> is taken to succeed (the quota is not modelled).
\<close>

type_synonym flatstore = "(string \<times> string) list"

definition setItem :: "string \<Rightarrow> string \<Rightarrow> flatstore \<Rightarrow> flatstore" where
  "setItem k v ls = AList.update k v ls"

definition getItem :: "string \<Rightarrow> flatstore \<Rightarrow> string option" where
  "getItem k ls = map_of ls k"

definition localStoragePrefix :: string where
  "localStoragePrefix = ''dt''"

definition MAX_LOCALSTORAGE_BYTES :: nat where
  "MAX_LOCALSTORAGE_BYTES = 4 * 1024 * 1024"

section \<open>The sync engine and the bridge\<close>

datatype posted =
    SaveDataChanged "(string \<times> string) list"
  | GetInitialSaveData string
  | SaveDataResponse "string option" "(string \<times> string) list"
  | LoadDataResponse "string option" bool
  | SnapshotResponse "string option"

text \<open>
  A message from the host: its type, its correlation id (absent in some), and the field
  \<open>allLocalStorageData\<close>: \<open>None\<close> when the field is absent or falsy, otherwise the
  own properties of the object, all strings.
\<close>

record event_data =
  msgType :: string
  messageId :: "string option"
  allLocalStorageData :: "(string \<times> string) list option"

text \<open>
  The state of the page: the two stores, whether the page runs inside a parent frame,
  the digest of the last payload sent, the messages posted so far, the one-shot listener
  of \<open>requestInitialSaveData\<close> (its correlation id while it is registered) and its
  timer, the \<open>wigdosxp-save-loaded\<close> events dispatched, and whether a reload is scheduled.
\<close>

record world =
  db :: idb
  localStorage :: flatstore
  isInIframe :: bool
  lastSyncedData :: "string option"
  outbox :: "posted list"
  responseHandler :: "string option"
  timeoutPending :: bool
  saveLoaded :: "(string \<times> string) list list"
  reloadScheduled :: bool

text \<open>
  The object built by a loop \<open>obj[key] = localStorage.getItem(key)\<close> over the keys that
  pass a test. The value is a string, so for the key \<open>__proto__\<close> the assignment is
  ignored by the setter of \<open>Object.prototype\<close> and the object gets no such property.
\<close>

definition collect :: "(string \<Rightarrow> bool) \<Rightarrow> flatstore \<Rightarrow> (string \<times> string) list" where
  "collect keep ls =
     fold (\<lambda>(k, v) obj. if keep k \<and> k \<noteq> ''__proto__'' then AList.update k v obj else obj)
       ls []"

definition notifySaveDataChanged :: "world \<Rightarrow> world" where
  "notifySaveDataChanged w =
     (if \<not> isInIframe w then w
      else
        (let allData = collect (\<lambda>key. \<not> (key = [] \<or> suffix ''::ts'' key)) (localStorage w);
             dataString = JSON_stringify_object allData
         in if Some dataString = lastSyncedData w then w
            else w\<lparr>lastSyncedData := Some dataString,
                   outbox := outbox w @ [SaveDataChanged allData]\<rparr>))"

text \<open>
  One entry of the export batch: serialize, check the size, write the entry and, when
  the index gave a timestamp for the key, its companion entry. \<open>toStr\<close> is the
  conversion \<open>String(...)\<close> of an index key, which depends on the platform for dates.
  The map \<open>timestamps\<close> is a plain object in the code, so the lookup also finds what
  \<open>Object.prototype\<close> has under the key (for a key such as \<open>constructor\<close>); here the
  lookup finds the entries of the index only.
\<close>

definition export_entry ::
  "(jsval \<Rightarrow> string) \<Rightarrow> (string \<times> jsval) list \<Rightarrow> string \<times> jsval \<Rightarrow> flatstore
     \<Rightarrow> bool \<times> flatstore" where
  "export_entry toStr ts e ls =
     (let localStorageKey = localStoragePrefix @ fst e in
      case serializeForLocalStorage (snd e) of
        Inl err \<Rightarrow> (False, ls)
      | Inr serialized \<Rightarrow>
         (if length serialized > MAX_LOCALSTORAGE_BYTES then (False, ls)
          else
            (let ls1 = setItem localStorageKey serialized ls
             in (True,
                 (case map_of ts (fst e) of
                    None \<Rightarrow> ls1
                  | Some t \<Rightarrow> setItem (localStorageKey @ ''::ts'') (toStr t) ls1)))))"

fun export_entries ::
  "(jsval \<Rightarrow> string) \<Rightarrow> (string \<times> jsval) list \<Rightarrow> (string \<times> jsval) list \<Rightarrow> flatstore
     \<Rightarrow> bool list \<times> flatstore" where
  "export_entries toStr ts [] ls = ([], ls)"
| "export_entries toStr ts (e # es) ls =
     (let (ok, ls1) = export_entry toStr ts e ls;
          (oks, ls2) = export_entries toStr ts es ls1
      in (ok # oks, ls2))"

definition exportToLocalStorage :: "(jsval \<Rightarrow> string) \<Rightarrow> world \<Rightarrow> (js_error + nat) \<times> world" where
  "exportToLocalStorage toStr w =
     (case getAllFromIndexedDB (db w) of
        Inl e \<Rightarrow> (Inl e, w)
      | Inr (d, data) \<Rightarrow>
         (if length (keys data) = 0 then (Inr 0, w\<lparr>db := d\<rparr>)
          else
            (let (results, ls) =
                   export_entries toStr (timestamps data) (zip (keys data) (vals data))
                     (localStorage w);
                 successCount = length (filter (\<lambda>b. b) results)
             in (Inr successCount,
                 notifySaveDataChanged (w\<lparr>db := d, localStorage := ls\<rparr>)))))"

text \<open>
  The import reads every FlatStore entry whose key is not empty, does not end with
  \<open>::ts\<close> and starts with the prefix; an entry whose payload fails to decode is
  skipped; every other one is written to the Store. The import rejects when a write does.
\<close>

definition import_candidates :: "flatstore \<Rightarrow> (string \<times> string) list" where
  "import_candidates ls =
     map (\<lambda>(k, s). (drop (length localStoragePrefix) k, s))
       (filter (\<lambda>(k, s). k \<noteq> [] \<and> \<not> suffix ''::ts'' k \<and> prefix localStoragePrefix k) ls)"

definition import_writes :: "flatstore \<Rightarrow> (string \<times> jsval) list" where
  "import_writes ls =
     List.map_filter
       (\<lambda>(k, s). case deserializeFromLocalStorage s of Inl e \<Rightarrow> None | Inr data \<Rightarrow> Some (k, data))
       (import_candidates ls)"

fun save_all :: "(string \<times> jsval) list \<Rightarrow> idb \<Rightarrow> nat \<times> bool \<times> idb" where
  "save_all [] d = (0, False, d)"
| "save_all (kv # ws) d =
     (case saveToIndexedDB (fst kv) (snd kv) d of
        Inl e \<Rightarrow> (let (n, rejected, d') = save_all ws d in (n, True, d'))
      | Inr d1 \<Rightarrow> (let (n, rejected, d') = save_all ws d1 in (Suc n, rejected, d')))"

definition importFromLocalStorage :: "world \<Rightarrow> (js_error + nat) \<times> world" where
  "importFromLocalStorage w =
     (let (importCount, rejected, d) = save_all (import_writes (localStorage w)) (db w)
      in ((if rejected then Inl StoreUnavailable else Inr importCount), w\<lparr>db := d\<rparr>))"

definition requestInitialSaveData :: "int \<Rightarrow> world \<Rightarrow> world" where
  "requestInitialSaveData now w =
     (if \<not> isInIframe w then w
      else
        (let mid = ''initial_load_'' @ Number_toString (Fin now)
         in w\<lparr>timeoutPending := True,
               responseHandler := Some mid,
               outbox := outbox w @ [GetInitialSaveData mid]\<rparr>))"

text \<open>The callback of the 5000 ms timer writes a log line and nothing else.\<close>

definition timeoutExpires :: "world \<Rightarrow> world" where
  "timeoutExpires w = w\<lparr>timeoutPending := False\<rparr>"

definition setItems :: "(string \<times> string) list \<Rightarrow> flatstore \<Rightarrow> flatstore" where
  "setItems data ls = fold (\<lambda>(k, v) l. setItem k v l) data ls"

definition onResponse :: "event_data \<Rightarrow> world \<Rightarrow> world" where
  "onResponse ev w =
     (case responseHandler w of
        None \<Rightarrow> w
      | Some mid \<Rightarrow>
         (if msgType ev = ''initialSaveDataResponse'' \<and> messageId ev = Some mid then
            (let w1 = w\<lparr>timeoutPending := False, responseHandler := None\<rparr>
             in case allLocalStorageData ev of
                  None \<Rightarrow> w1
                | Some data \<Rightarrow>
                   (if length data > 0 then
                      (let w2 = w1\<lparr>localStorage := setItems data (localStorage w1)\<rparr>;
                           w3 = snd (importFromLocalStorage w2)
                       in w3\<lparr>saveLoaded := saveLoaded w3 @ [data]\<rparr>)
                    else w1))
          else w))"

definition handleGetAllLocalStorageData :: "event_data \<Rightarrow> world \<Rightarrow> world" where
  "handleGetAllLocalStorageData ev w =
     w\<lparr>outbox := outbox w
          @ [SaveDataResponse (messageId ev) (collect (\<lambda>key. True) (localStorage w))]\<rparr>"

text \<open>
  \<open>handleSetAllLocalStorageData\<close>: nothing happens without the field; otherwise the
  FlatStore is cleared and refilled, the import runs, and its continuation posts the
  success and schedules the reload; a rejected import posts nothing. The \<open>catch\<close> of
  the handler, which posts \<open>success: false\<close>, is entered only when \<open>clear\<close> or
  \<open>setItem\<close> raises, which they do not here.
\<close>

definition handleSetAllLocalStorageData :: "event_data \<Rightarrow> world \<Rightarrow> world" where
  "handleSetAllLocalStorageData ev w =
     (case allLocalStorageData ev of
        None \<Rightarrow> w
      | Some data \<Rightarrow>
         (let w1 = w\<lparr>localStorage := setItems data []\<rparr>;
              (r, w2) = importFromLocalStorage w1;
              w3 = (case r of
                      Inl e \<Rightarrow> w2
                    | Inr n \<Rightarrow> w2\<lparr>outbox := outbox w2 @ [LoadDataResponse (messageId ev) True],
                                  reloadScheduled := True\<rparr>)
          in w3\<lparr>saveLoaded := saveLoaded w3 @ [data]\<rparr>))"

text \<open>
  The snapshot itself is made by an external library; the bridge only answers.
\<close>

definition handleSnapshotRequest :: "event_data \<Rightarrow> world \<Rightarrow> world" where
  "handleSnapshotRequest ev w = w\<lparr>outbox := outbox w @ [SnapshotResponse (messageId ev)]\<rparr>"

text \<open>
  The listener of \<open>setupMessageListeners\<close>, registered only inside a parent frame.
\<close>

definition onMessage :: "event_data \<Rightarrow> world \<Rightarrow> world" where
  "onMessage ev w =
     (if \<not> isInIframe w \<or> msgType ev = [] then w
      else if msgType ev = ''getAllLocalStorageData'' then handleGetAllLocalStorageData ev w
      else if msgType ev = ''setAllLocalStorageData'' then handleSetAllLocalStorageData ev w
      else if msgType ev = ''requestSnapshot'' then handleSnapshotRequest ev w
      else w)"

text \<open>
  What the page does on an event, each handler run to completion: a message goes to the
  one-shot listener first (it was registered first), then to the main listener; the
  timer fires only while it is pending.
\<close>

datatype event = Message event_data | Timeout

definition step :: "event \<Rightarrow> world \<Rightarrow> world" where
  "step e w =
     (case e of
        Message ev \<Rightarrow> onMessage ev (onResponse ev w)
      | Timeout \<Rightarrow> if timeoutPending w then timeoutExpires w else w)"

definition run :: "event list \<Rightarrow> world \<Rightarrow> world" where
  "run es w = fold step es w"

section \<open>Example states\<close>

definition freshStore :: idb where
  "freshStore = \<lparr>openable = True, upgradable = True, container = Some [], hasIndex = True\<rparr>"

definition freshPage :: world where
  "freshPage =
     \<lparr>db = freshStore, localStorage = [], isInIframe = True, lastSyncedData = None,
      outbox = [], responseHandler = None, timeoutPending = False, saveLoaded = [],
      reloadScheduled = False\<rparr>"

definition hostMessage :: "string \<Rightarrow> string \<Rightarrow> (string \<times> string) list option \<Rightarrow> event_data" where
  "hostMessage ty mid data = \<lparr>msgType = ty, messageId = Some mid, allLocalStorageData = data\<rparr>"

section \<open>Claims\<close>

text \<open>
  C10. A \<open>setAllLocalStorageData\<close> message whose field \<open>allLocalStorageData\<close> is absent
  or falsy changes nothing: the FlatStore, the Store and the list of posted messages are
  the same after the handler as before it, so no \<open>loadDataResponse\<close> is posted, both
  when the handler is called directly and when the message goes through the listener.
\<close>

theorem C10_falsy_payload_is_ignored:
  assumes "allLocalStorageData ev = None"
  shows "handleSetAllLocalStorageData ev w = w
       \<and> (msgType ev = ''setAllLocalStorageData'' \<longrightarrow> onMessage ev w = w)"
  using assms by (simp add: handleSetAllLocalStorageData_def onMessage_def)

theorem C10_falsy_payload_is_ignored_witness:
  "allLocalStorageData (hostMessage ''setAllLocalStorageData'' ''m1'' None) = None
   \<and> msgType (hostMessage ''setAllLocalStorageData'' ''m1'' None) = ''setAllLocalStorageData''
   \<and> handleSetAllLocalStorageData (hostMessage ''setAllLocalStorageData'' ''m1'' None)
        (freshPage\<lparr>localStorage := [(''dtoldkey'', ''JS:1'')]\<rparr>)
      = freshPage\<lparr>localStorage := [(''dtoldkey'', ''JS:1'')]\<rparr>
   \<and> outbox (onMessage (hostMessage ''setAllLocalStorageData'' ''m1'' None)
        (freshPage\<lparr>localStorage := [(''dtoldkey'', ''JS:1'')]\<rparr>)) = []"
  using C10_falsy_payload_is_ignored
          [of "hostMessage ''setAllLocalStorageData'' ''m1'' None"
              "freshPage\<lparr>localStorage := [(''dtoldkey'', ''JS:1'')]\<rparr>"]
  by (simp add: hostMessage_def freshPage_def)

text \<open>
  C6 (failing input). The FlatStore holds the data entry \<open>dta\<close> and its companion
  \<open>dta::ts\<close>. The answer of \<open>handleGetAllLocalStorageData\<close> to the host lists the
  companion among the data entries, while the payload of \<open>notifySaveDataChanged\<close> for
  the same FlatStore leaves it out.
\<close>

theorem C6_getAll_sends_companion_entry:
  "outbox (handleGetAllLocalStorageData (hostMessage ''getAllLocalStorageData'' ''m1'' None)
      (freshPage\<lparr>localStorage := [(''dta'', ''JS:1''), (''dta::ts'', ''5'')]\<rparr>))
     = [SaveDataResponse (Some ''m1'') [(''dta'', ''JS:1''), (''dta::ts'', ''5'')]]
   \<and> outbox (notifySaveDataChanged
      (freshPage\<lparr>localStorage := [(''dta'', ''JS:1''), (''dta::ts'', ''5'')]\<rparr>))
     = [SaveDataChanged [(''dta'', ''JS:1'')]]"
  by (simp add: handleGetAllLocalStorageData_def notifySaveDataChanged_def collect_def
        hostMessage_def freshPage_def Let_def suffix_def)

text \<open>
  C2 (counterexample). The payload \<open>{bad\<close> under the tag \<open>JS:\<close> is not JSON:
  \<open>JSON.parse\<close> raises SyntaxError and the decoder does not catch it, so the call
  fails instead of returning the raw string.
\<close>

theorem C2_malformed_payload_raises:
  "deserializeFromLocalStorage ''JS:{bad'' = Inl SyntaxError"
  by code_simp

text \<open>
  C2 (amended). A string that starts with none of the tags \<open>AB:\<close>, \<open>TA:\<close>, \<open>BL:\<close>,
  \<open>DATE:\<close>, \<open>JS:\<close>, \<open>OBJ:\<close> is returned unchanged, as a string; a string with the tag
  \<open>DATE:\<close> always decodes to a Date (an invalid one when the payload is not a number).
  Hence the decoder can only fail on a payload under \<open>AB:\<close>, \<open>TA:\<close>, \<open>BL:\<close>,
  \<open>JS:\<close> or \<open>OBJ:\<close>.
\<close>

theorem C2_unknown_tag_passthrough:
  "(\<not> prefix ''AB:'' s \<and> \<not> prefix ''TA:'' s \<and> \<not> prefix ''BL:'' s
      \<and> \<not> prefix ''DATE:'' s \<and> \<not> prefix ''JS:'' s \<and> \<not> prefix ''OBJ:'' s
      \<longrightarrow> deserializeFromLocalStorage s = Inr (JStr s))
   \<and> (prefix ''DATE:'' s
      \<longrightarrow> deserializeFromLocalStorage s = Inr (JDate (newDate (Number_js (drop 5 s)))))
   \<and> (deserializeFromLocalStorage s = Inl e
      \<longrightarrow> prefix ''AB:'' s \<or> prefix ''TA:'' s \<or> prefix ''BL:'' s \<or> prefix ''JS:'' s
          \<or> prefix ''OBJ:'' s)"
proof -
  have unknown: "deserializeFromLocalStorage s = Inr (JStr s)"
    if "\<not> prefix ''AB:'' s" "\<not> prefix ''TA:'' s" "\<not> prefix ''BL:'' s"
       "\<not> prefix ''DATE:'' s" "\<not> prefix ''JS:'' s" "\<not> prefix ''OBJ:'' s"
  proof -
    from that(5) have "s \<noteq> ''JS:__NULL__''" "s \<noteq> ''JS:__UNDEFINED__''" by auto
    with that show ?thesis by (simp add: deserializeFromLocalStorage.simps)
  qed
  have date: "deserializeFromLocalStorage s = Inr (JDate (newDate (Number_js (drop 5 s))))"
    if "prefix ''DATE:'' s"
  proof -
    from that obtain r where s: "s = ''DATE:'' @ r" by (auto simp: prefix_def)
    show ?thesis by (simp add: deserializeFromLocalStorage.simps s)
  qed
  from unknown date show ?thesis by (metis sum.distinct(1))
qed

theorem C2_unknown_tag_passthrough_witness:
  "\<not> prefix ''AB:'' ''v2:xyz'' \<and> \<not> prefix ''TA:'' ''v2:xyz'' \<and> \<not> prefix ''BL:'' ''v2:xyz''
   \<and> \<not> prefix ''DATE:'' ''v2:xyz'' \<and> \<not> prefix ''JS:'' ''v2:xyz'' \<and> \<not> prefix ''OBJ:'' ''v2:xyz''
   \<and> deserializeFromLocalStorage ''v2:xyz'' = Inr (JStr ''v2:xyz'')
   \<and> prefix ''DATE:'' ''DATE:soon''
   \<and> deserializeFromLocalStorage ''DATE:soon'' = Inr (JDate None)
   \<and> deserializeFromLocalStorage ''JS:{bad'' = Inl SyntaxError
   \<and> prefix ''JS:'' ''JS:{bad''"
proof -
  have n: "newDate (Number_js (drop 5 ''DATE:soon'')) = None" by code_simp
  have b: "deserializeFromLocalStorage ''JS:{bad'' = Inl SyntaxError" by code_simp
  show ?thesis
    using C2_unknown_tag_passthrough[of "''v2:xyz''"]
      C2_unknown_tag_passthrough[of "''DATE:soon''"]
      C2_unknown_tag_passthrough[of "''JS:{bad''" SyntaxError] n b
    by simp
qed

text \<open>
  C4 (counterexample). The page requests the initial save data at time 0, the timer
  expires, and only then the matching response arrives. The listener is still registered
  after the expiry, and the late response overwrites the FlatStore and is imported into
  the Store.
\<close>

theorem C4_late_response_is_processed:
  "responseHandler (run [Timeout] (requestInitialSaveData 0 freshPage)) = Some ''initial_load_0''
   \<and> localStorage
        (run [Timeout,
              Message (hostMessage ''initialSaveDataResponse'' ''initial_load_0''
                         (Some [(''dtk'', ''JS:1'')]))]
           (requestInitialSaveData 0 freshPage))
      = [(''dtk'', ''JS:1'')]
   \<and> entries (db
        (run [Timeout,
              Message (hostMessage ''initialSaveDataResponse'' ''initial_load_0''
                         (Some [(''dtk'', ''JS:1'')]))]
           (requestInitialSaveData 0 freshPage)))
      = [(''k'', JNum (Fin 1))]"
  by code_simp

lemma importFromLocalStorage_fields:
  "snd (importFromLocalStorage w) = w\<lparr>db := db (snd (importFromLocalStorage w))\<rparr>"
  by (simp add: importFromLocalStorage_def split_def Let_def)

text \<open>
  C4 (amended). While the one-shot listener is registered with correlation id \<open>mid\<close>:
  a message of type \<open>initialSaveDataResponse\<close> with that id removes the listener and
  clears the timer, and the listener ignores every later message; a message of another
  type or with another id leaves the state as it is; the expiry of the timer leaves the
  listener registered; and a matching response that arrives after the expiry has exactly
  the effect it has before the expiry.
\<close>

theorem C4_listener_leaves_on_match_only:
  assumes "responseHandler w = Some mid"
  shows "(msgType ev = ''initialSaveDataResponse'' \<and> messageId ev = Some mid \<longrightarrow>
            responseHandler (onResponse ev w) = None
          \<and> \<not> timeoutPending (onResponse ev w)
          \<and> onResponse ev' (onResponse ev w) = onResponse ev w
          \<and> onResponse ev (step Timeout w) = onResponse ev w)
       \<and> (\<not> (msgType ev = ''initialSaveDataResponse'' \<and> messageId ev = Some mid) \<longrightarrow>
            onResponse ev w = w)
       \<and> responseHandler (step Timeout w) = Some mid"
proof -
  have keep: "responseHandler (snd (importFromLocalStorage v)) = responseHandler v
      \<and> timeoutPending (snd (importFromLocalStorage v)) = timeoutPending v" for v
    by (subst (1 2) importFromLocalStorage_fields) simp
  have gone: "responseHandler (onResponse ev w) = None \<and> \<not> timeoutPending (onResponse ev w)"
    if "msgType ev = ''initialSaveDataResponse''" "messageId ev = Some mid"
    using assms that by (simp add: onResponse_def Let_def keep split: option.splits)
  have late: "onResponse ev (step Timeout w) = onResponse ev w"
    if "msgType ev = ''initialSaveDataResponse''" "messageId ev = Some mid"
    using assms that by (simp add: onResponse_def step_def timeoutExpires_def Let_def)
  have other: "onResponse ev w = w"
    if "\<not> (msgType ev = ''initialSaveDataResponse'' \<and> messageId ev = Some mid)"
    using assms that by (auto simp: onResponse_def)
  have still: "responseHandler (step Timeout w) = Some mid"
    using assms by (simp add: step_def timeoutExpires_def)
  have ignored: "onResponse ev' v = v" if "responseHandler v = None" for v
    using that by (simp add: onResponse_def)
  from gone late other still ignored show ?thesis by blast
qed

theorem C4_listener_leaves_on_match_only_witness:
  "responseHandler (requestInitialSaveData 0 freshPage) = Some ''initial_load_0''
   \<and> msgType (hostMessage ''initialSaveDataResponse'' ''initial_load_0'' (Some [(''dtk'', ''JS:1'')]))
       = ''initialSaveDataResponse''
   \<and> messageId (hostMessage ''initialSaveDataResponse'' ''initial_load_0'' (Some [(''dtk'', ''JS:1'')]))
       = Some ''initial_load_0''
   \<and> responseHandler
        (onResponse (hostMessage ''initialSaveDataResponse'' ''initial_load_0'' (Some [(''dtk'', ''JS:1'')]))
           (requestInitialSaveData 0 freshPage)) = None
   \<and> onResponse (hostMessage ''initialSaveDataResponse'' ''initial_load_0'' (Some [(''dtk'', ''JS:1'')]))
        (step Timeout (requestInitialSaveData 0 freshPage))
      = onResponse (hostMessage ''initialSaveDataResponse'' ''initial_load_0'' (Some [(''dtk'', ''JS:1'')]))
          (requestInitialSaveData 0 freshPage)
   \<and> onResponse (hostMessage ''initialSaveDataResponse'' ''other'' (Some [(''dtk'', ''JS:1'')]))
        (requestInitialSaveData 0 freshPage)
      = requestInitialSaveData 0 freshPage
   \<and> responseHandler (step Timeout (requestInitialSaveData 0 freshPage)) = Some ''initial_load_0''"
proof -
  have r: "responseHandler (requestInitialSaveData 0 freshPage) = Some ''initial_load_0''"
    by code_simp
  show ?thesis
    using r
      C4_listener_leaves_on_match_only[OF r,
        of "hostMessage ''initialSaveDataResponse'' ''initial_load_0'' (Some [(''dtk'', ''JS:1'')])"]
      C4_listener_leaves_on_match_only[OF r,
        of "hostMessage ''initialSaveDataResponse'' ''other'' (Some [(''dtk'', ''JS:1'')])"]
    by (simp add: hostMessage_def)
qed



section \<open>Repeating a batch of writes\<close>

text \<open>
  Both stores are written by upserts only. \<open>put_all\<close> is a batch of upserts in order;
  running the same batch again changes nothing.
\<close>

definition put_all :: "('k \<times> 'v) list \<Rightarrow> ('k \<times> 'v) list \<Rightarrow> ('k \<times> 'v) list" where
  "put_all ws al = fold (\<lambda>(k, v) l. AList.update k v l) ws al"

lemma put_all_Nil [simp]: "put_all [] al = al"
  by (simp add: put_all_def)

lemma put_all_Cons [simp]: "put_all ((k, v) # ws) al = put_all ws (AList.update k v al)"
  by (simp add: put_all_def)

lemma put_all_append: "put_all (ws @ ws') al = put_all ws' (put_all ws al)"
  by (simp add: put_all_def)

lemma keys_update: "fst ` set (AList.update k v al) = insert k (fst ` set al)"
  by (induction al) auto

lemma keys_put_all: "fst ` set (put_all ws al) = fst ` set al \<union> fst ` set ws"
proof (induction ws arbitrary: al)
  case Nil
  then show ?case by simp
next
  case (Cons w ws)
  obtain k v where w: "w = (k, v)" by (cases w)
  have "fst ` set (put_all (w # ws) al) = fst ` set (AList.update k v al) \<union> fst ` set ws"
    by (simp add: w Cons.IH)
  then show ?case by (simp add: keys_update w Un_commute insert_commute)
qed

lemma update_twice: "AList.update k v (AList.update k v0 al) = AList.update k v al"
  by (induction al) auto

lemma update_swap_present:
  "k \<noteq> k' \<Longrightarrow> k' \<in> fst ` set al \<Longrightarrow>
     AList.update k' v' (AList.update k v al) = AList.update k v (AList.update k' v' al)"
  by (induction al) auto

lemma put_all_absorb:
  "fst ` set ws \<subseteq> fst ` set al \<Longrightarrow>
     AList.update k v (put_all ws (AList.update k v0 al)) = AList.update k v (put_all ws al)"
proof (induction ws arbitrary: al v0)
  case Nil
  then show ?case by (simp add: update_twice)
next
  case (Cons w ws)
  obtain k1 v1 where w: "w = (k1, v1)" by (cases w)
  from Cons.prems w have k1: "k1 \<in> fst ` set al" and sub: "fst ` set ws \<subseteq> fst ` set al"
    by auto
  have sub': "fst ` set ws \<subseteq> fst ` set (AList.update k1 v1 al)"
    using sub by (auto simp: keys_update)
  show ?case
  proof (cases "k1 = k")
    case True
    then show ?thesis by (simp add: w update_twice)
  next
    case False
    then have "AList.update k1 v1 (AList.update k v0 al) = AList.update k v0 (AList.update k1 v1 al)"
      using k1 by (simp add: update_swap_present)
    then show ?thesis using Cons.IH[OF sub', of v0] by (simp add: w)
  qed
qed

lemma put_all_idem: "put_all ws (put_all ws al) = put_all ws al"
proof (induction ws arbitrary: al rule: rev_induct)
  case Nil
  then show ?case by simp
next
  case (snoc w ws)
  obtain k v where w: "w = (k, v)" by (cases w)
  let ?t = "put_all ws al"
  have sub: "fst ` set ws \<subseteq> fst ` set ?t" by (simp add: keys_put_all)
  have "put_all (ws @ [w]) (put_all (ws @ [w]) al)
      = AList.update k v (put_all ws (AList.update k v ?t))"
    by (simp add: put_all_append w)
  also have "\<dots> = AList.update k v (put_all ws ?t)"
    using sub by (rule put_all_absorb)
  also have "\<dots> = AList.update k v ?t" by (simp add: snoc.IH)
  also have "\<dots> = put_all (ws @ [w]) al" by (simp add: put_all_append w)
  finally show ?case .
qed

lemma setItems_put_all: "setItems data ls = put_all data ls"
  by (simp add: setItems_def put_all_def setItem_def)

lemma openDB_Inr: "openDB d = Inr d' \<Longrightarrow> openable d' \<and> container d' \<noteq> None"
  by (auto simp: openDB_def split: if_splits option.splits)

lemma openDB_again: "openable d \<Longrightarrow> container d \<noteq> None \<Longrightarrow> openDB d = Inr d"
  by (auto simp: openDB_def)

lemma save_all_rejected: "openDB d = Inl e \<Longrightarrow> save_all ws d = (0, ws \<noteq> [], d)"
  by (induction ws) (auto simp: saveToIndexedDB_def)

lemma save_all_open:
  "openable d \<Longrightarrow> container d = Some c \<Longrightarrow>
     save_all ws d = (length ws, False, d\<lparr>container := Some (put_all ws c)\<rparr>)"
proof (induction ws arbitrary: d c)
  case Nil
  then show ?case by simp
next
  case (Cons kv ws)
  obtain k v where kv: "kv = (k, v)" by (cases kv)
  let ?d1 = "d\<lparr>container := Some (AList.update k v c)\<rparr>"
  have s: "saveToIndexedDB k v d = Inr ?d1"
    using Cons.prems by (simp add: saveToIndexedDB_def openDB_def entries_def)
  have "save_all ws ?d1 = (length ws, False, ?d1\<lparr>container := Some (put_all ws (AList.update k v c))\<rparr>)"
    using Cons.prems by (intro Cons.IH) simp_all
  then show ?case by (simp add: kv s)
qed

lemma save_all_opened:
  assumes "openDB d = Inr d'" "ws \<noteq> []"
  shows "save_all ws d = (length ws, False, d'\<lparr>container := Some (put_all ws (entries d'))\<rparr>)"
proof -
  obtain kv ws' where ws: "ws = kv # ws'" using assms(2) by (cases ws) auto
  obtain k v where kv: "kv = (k, v)" by (cases kv)
  from openDB_Inr[OF assms(1)] obtain c where c: "openable d'" "container d' = Some c" by auto
  let ?d1 = "d'\<lparr>container := Some (AList.update k v c)\<rparr>"
  have s: "saveToIndexedDB k v d = Inr ?d1"
    using assms(1) c by (simp add: saveToIndexedDB_def entries_def)
  have "save_all ws' ?d1 = (length ws', False, ?d1\<lparr>container := Some (put_all ws' (AList.update k v c))\<rparr>)"
    using c by (intro save_all_open) simp_all
  then show ?thesis using c by (simp add: ws kv s entries_def)
qed

text \<open>
  C7. Import twice against an unchanged FlatStore: the second run returns what the first
  returned (the same count, or the same rejection when the Store cannot be opened) and
  leaves the whole state, the Store included, as the first run left it.
\<close>

theorem C7_import_twice:
  "fst (importFromLocalStorage (snd (importFromLocalStorage w))) = fst (importFromLocalStorage w)
   \<and> snd (importFromLocalStorage (snd (importFromLocalStorage w))) = snd (importFromLocalStorage w)
   \<and> localStorage (snd (importFromLocalStorage w)) = localStorage w"
proof -
  let ?ws = "import_writes (localStorage w)"
  show ?thesis
  proof (cases "?ws = []")
    case True
    then show ?thesis by (simp add: importFromLocalStorage_def)
  next
    case False
    show ?thesis
    proof (cases "openDB (db w)")
      case (Inl e)
      with False show ?thesis
        by (simp add: importFromLocalStorage_def save_all_rejected)
    next
      case (Inr d')
      let ?d1 = "d'\<lparr>container := Some (put_all ?ws (entries d'))\<rparr>"
      have first: "importFromLocalStorage w = (Inr (length ?ws), w\<lparr>db := ?d1\<rparr>)"
        using save_all_opened[OF Inr False] by (simp add: importFromLocalStorage_def)
      from openDB_Inr[OF Inr] have "openable ?d1" "container ?d1 = Some (put_all ?ws (entries d'))"
        by simp_all
      then have "save_all ?ws ?d1
          = (length ?ws, False, ?d1\<lparr>container := Some (put_all ?ws (put_all ?ws (entries d')))\<rparr>)"
        by (rule save_all_open)
      then have "importFromLocalStorage (w\<lparr>db := ?d1\<rparr>) = (Inr (length ?ws), w\<lparr>db := ?d1\<rparr>)"
        by (simp add: importFromLocalStorage_def put_all_idem)
      with first show ?thesis by simp
    qed
  qed
qed

section \<open>The export batch\<close>

text \<open>
  An entry fits when it serializes and the string is within the limit; it is oversized
  when it serializes to a longer string. \<open>entry_writes\<close> lists what the batch writes
  for one entry.
\<close>

definition fits :: "jsval \<Rightarrow> bool" where
  "fits v =
     (case serializeForLocalStorage v of
        Inl e \<Rightarrow> False
      | Inr s \<Rightarrow> length s \<le> MAX_LOCALSTORAGE_BYTES)"

definition oversized :: "jsval \<Rightarrow> bool" where
  "oversized v =
     (case serializeForLocalStorage v of
        Inl e \<Rightarrow> False
      | Inr s \<Rightarrow> length s > MAX_LOCALSTORAGE_BYTES)"

definition entry_writes ::
  "(jsval \<Rightarrow> string) \<Rightarrow> (string \<times> jsval) list \<Rightarrow> string \<times> jsval \<Rightarrow> (string \<times> string) list" where
  "entry_writes toStr ts e =
     (case serializeForLocalStorage (snd e) of
        Inl err \<Rightarrow> []
      | Inr s \<Rightarrow>
         (if length s > MAX_LOCALSTORAGE_BYTES then []
          else (localStoragePrefix @ fst e, s)
               # (case map_of ts (fst e) of
                    None \<Rightarrow> []
                  | Some t \<Rightarrow> [(localStoragePrefix @ fst e @ ''::ts'', toStr t)])))"

lemma export_entry_eq:
  "export_entry toStr ts e ls = (fits (snd e), put_all (entry_writes toStr ts e) ls)"
  by (auto simp: export_entry_def fits_def entry_writes_def setItem_def Let_def
        split: sum.splits option.splits)

lemma export_entries_eq:
  "export_entries toStr ts es ls
     = (map (\<lambda>e. fits (snd e)) es, put_all (concat (map (entry_writes toStr ts) es)) ls)"
  by (induction es arbitrary: ls) (simp_all add: export_entry_eq put_all_append)

lemma oversized_no_writes: "oversized (snd e) \<Longrightarrow> entry_writes toStr ts e = []"
  by (auto simp: oversized_def entry_writes_def split: sum.splits)

lemma oversized_not_fits: "oversized v \<Longrightarrow> \<not> fits v"
  by (auto simp: oversized_def fits_def split: sum.splits)

lemma fits_not_oversized: "fits v \<Longrightarrow> \<not> oversized v"
  by (auto simp: oversized_def fits_def split: sum.splits)

lemma concat_writes_filter:
  "concat (map (entry_writes toStr ts) (filter (\<lambda>e. \<not> oversized (snd e)) es))
     = concat (map (entry_writes toStr ts) es)"
  by (induction es) (simp_all add: oversized_no_writes)

lemma count_fits_filter:
  "length (filter (\<lambda>b. b) (map (\<lambda>e. fits (snd e)) es)) = length (filter (\<lambda>e. fits (snd e)) es)"
  by (induction es) simp_all

lemma getAll_zip:
  "getAllFromIndexedDB d0 = Inr (d, data) \<Longrightarrow> zip (keys data) (vals data) = entries d"
  by (auto simp: getAllFromIndexedDB_def zip_map_fst_snd split: sum.splits)

lemma getAll_again:
  assumes "getAllFromIndexedDB d0 = Inr (d, data)"
  shows "getAllFromIndexedDB d = Inr (d, data)"
proof -
  from assms have o: "openDB d0 = Inr d"
    by (auto simp: getAllFromIndexedDB_def split: sum.splits)
  from openDB_Inr[OF o] have "openDB d = Inr d" by (simp add: openDB_again)
  with assms o show ?thesis by (simp add: getAllFromIndexedDB_def)
qed

lemma notify_fields:
  "db (notifySaveDataChanged w) = db w \<and> localStorage (notifySaveDataChanged w) = localStorage w
   \<and> isInIframe (notifySaveDataChanged w) = isInIframe w"
  by (simp add: notifySaveDataChanged_def Let_def)

lemma notify_idem: "notifySaveDataChanged (notifySaveDataChanged w) = notifySaveDataChanged w"
  by (simp add: notifySaveDataChanged_def Let_def)

lemma export_state:
  assumes "getAllFromIndexedDB (db w) = Inr (d, data)"
  shows "exportToLocalStorage toStr w =
     (if entries d = [] then (Inr 0, w\<lparr>db := d\<rparr>)
      else (Inr (length (filter (\<lambda>e. fits (snd e)) (entries d))),
            notifySaveDataChanged
              (w\<lparr>db := d,
                 localStorage :=
                   put_all (concat (map (entry_writes toStr (timestamps data)) (entries d)))
                     (localStorage w)\<rparr>)))"
proof -
  have k: "(keys data = []) = (entries d = [])"
    using assms by (auto simp: getAllFromIndexedDB_def split: sum.splits)
  show ?thesis
    using assms
    by (simp add: exportToLocalStorage_def k getAll_zip[OF assms] export_entries_eq
          filter_map comp_def Let_def)
qed

lemma length_json_quote: "length s + 2 \<le> length (json_quote s)"
proof -
  have e: "1 \<le> length (json_escape c)" for c by (simp add: json_escape_def)
  have "length s \<le> length (concat (map json_escape s))"
  proof (induction s)
    case Nil
    then show ?case by simp
  next
    case (Cons c s)
    with e[of c] show ?case by simp
  qed
  then show ?thesis by (simp add: json_quote_def)
qed

definition bigString :: string where
  "bigString = replicate (Suc MAX_LOCALSTORAGE_BYTES) (CHR ''a'')"

definition noTimestamp :: "jsval \<Rightarrow> string" where
  "noTimestamp v = []"

lemma bigString_oversized: "oversized (JStr bigString)"
  using length_json_quote[of bigString] by (simp add: oversized_def bigString_def)

lemma one_fits: "fits (JNum (Fin 1))"
proof -
  have "serializeForLocalStorage (JNum (Fin 1)) = Inr ''JS:1''" by code_simp
  then show ?thesis by (simp add: fits_def MAX_LOCALSTORAGE_BYTES_def)
qed

text \<open>
  C5. When the Store can be read, the export resolves with the number of entries that
  fit (an oversized entry is not counted and raises nothing), and the FlatStore it leaves
  is the one the batch without the oversized entries leaves: an oversized entry writes
  nothing, and the other entries of the batch are processed as usual.
\<close>

theorem C5_oversized_entries_are_skipped:
  assumes "getAllFromIndexedDB (db w) = Inr (d, data)"
  shows "fst (exportToLocalStorage toStr w) = Inr (length (filter (\<lambda>e. fits (snd e)) (entries d)))
       \<and> localStorage (snd (exportToLocalStorage toStr w))
           = snd (export_entries toStr (timestamps data)
                    (filter (\<lambda>e. \<not> oversized (snd e)) (entries d)) (localStorage w))
       \<and> (\<forall>e ls. oversized (snd e) \<longrightarrow>
             \<not> fits (snd e) \<and> export_entry toStr (timestamps data) e ls = (False, ls))"
  by (simp add: export_state[OF assms] export_entries_eq concat_writes_filter notify_fields
        export_entry_eq oversized_no_writes oversized_not_fits)

theorem C5_oversized_entries_are_skipped_witness:
  "getAllFromIndexedDB
     (freshStore\<lparr>container := Some [(''big'', JStr bigString), (''a'', JNum (Fin 1))]\<rparr>)
     = Inr (freshStore\<lparr>container := Some [(''big'', JStr bigString), (''a'', JNum (Fin 1))]\<rparr>,
            \<lparr>keys = [''big'', ''a''], vals = [JStr bigString, JNum (Fin 1)], timestamps = []\<rparr>)
   \<and> oversized (JStr bigString)
   \<and> fst (exportToLocalStorage noTimestamp
        (freshPage\<lparr>db := freshStore\<lparr>container := Some [(''big'', JStr bigString), (''a'', JNum (Fin 1))]\<rparr>\<rparr>))
      = Inr 1
   \<and> localStorage (snd (exportToLocalStorage noTimestamp
        (freshPage\<lparr>db := freshStore\<lparr>container := Some [(''big'', JStr bigString), (''a'', JNum (Fin 1))]\<rparr>\<rparr>)))
      = [(''dta'', ''JS:1'')]"
proof -
  let ?d = "freshStore\<lparr>container := Some [(''big'', JStr bigString), (''a'', JNum (Fin 1))]\<rparr>"
  let ?data = "\<lparr>keys = [''big'', ''a''], vals = [JStr bigString, JNum (Fin 1)], timestamps = []\<rparr>"
  have g: "getAllFromIndexedDB (db (freshPage\<lparr>db := ?d\<rparr>)) = Inr (?d, ?data)"
    by (simp add: getAllFromIndexedDB_def openDB_def freshStore_def entries_def
          List.map_filter_def timestamp_of_def)
  have s1: "serializeForLocalStorage (JNum (Fin 1)) = Inr ''JS:1''" by code_simp
  have e: "export_entry noTimestamp [] (''a'', JNum (Fin 1)) [] = (True, [(''dta'', ''JS:1'')])"
    unfolding export_entry_def snd_conv fst_conv s1
    by (simp add: MAX_LOCALSTORAGE_BYTES_def localStoragePrefix_def setItem_def)
  show ?thesis
    using C5_oversized_entries_are_skipped[OF g, of noTimestamp] g
      bigString_oversized oversized_not_fits[OF bigString_oversized] one_fits
      fits_not_oversized[OF one_fits] e
    by (simp add: entries_def freshPage_def)
qed

text \<open>
  C3 (counterexample). The Store holds one entry, a string whose serialized form is
  longer than the limit. The export writes nothing and resolves with count 0, and it
  still posts \<open>saveDataChanged\<close> (with the empty payload, which differs from the digest
  \<open>null\<close> of a page that has sent nothing yet).
\<close>

theorem C3_notifies_with_count_zero:
  "fst (exportToLocalStorage noTimestamp
        (freshPage\<lparr>db := freshStore\<lparr>container := Some [(''big'', JStr bigString)]\<rparr>\<rparr>))
      = Inr 0
   \<and> outbox (snd (exportToLocalStorage noTimestamp
        (freshPage\<lparr>db := freshStore\<lparr>container := Some [(''big'', JStr bigString)]\<rparr>\<rparr>)))
      = [SaveDataChanged []]"
proof -
  let ?d = "freshStore\<lparr>container := Some [(''big'', JStr bigString)]\<rparr>"
  let ?data = "\<lparr>keys = [''big''], vals = [JStr bigString], timestamps = []\<rparr>"
  have g: "getAllFromIndexedDB (db (freshPage\<lparr>db := ?d\<rparr>)) = Inr (?d, ?data)"
    by (simp add: getAllFromIndexedDB_def openDB_def freshStore_def entries_def
          List.map_filter_def timestamp_of_def)
  note ex = export_state[OF g, of noTimestamp]
  show ?thesis
    unfolding ex
    using bigString_oversized
    by (simp add: entries_def oversized_no_writes oversized_not_fits
          notifySaveDataChanged_def collect_def JSON_stringify_object_def freshPage_def Let_def)
qed

text \<open>
  What one export adds to the posted messages, and what a second export does.
\<close>

lemma export_posts_at_most_once:
  "(outbox (snd (exportToLocalStorage toStr w)) = outbox w
    \<or> (isInIframe w
       \<and> (\<exists>d data. getAllFromIndexedDB (db w) = Inr (d, data) \<and> entries d \<noteq> [])
       \<and> Some (JSON_stringify_object
                 (collect (\<lambda>key. \<not> (key = [] \<or> suffix ''::ts'' key))
                    (localStorage (snd (exportToLocalStorage toStr w)))))
           \<noteq> lastSyncedData w
       \<and> outbox (snd (exportToLocalStorage toStr w))
           = outbox w @ [SaveDataChanged
               (collect (\<lambda>key. \<not> (key = [] \<or> suffix ''::ts'' key))
                  (localStorage (snd (exportToLocalStorage toStr w))))]
       \<and> lastSyncedData (snd (exportToLocalStorage toStr w))
           = Some (JSON_stringify_object
                 (collect (\<lambda>key. \<not> (key = [] \<or> suffix ''::ts'' key))
                    (localStorage (snd (exportToLocalStorage toStr w)))))))
   \<and> snd (exportToLocalStorage toStr (snd (exportToLocalStorage toStr w)))
       = snd (exportToLocalStorage toStr w)
   \<and> length (outbox (snd (exportToLocalStorage toStr (snd (exportToLocalStorage toStr w)))))
       \<le> length (outbox w) + 1"
proof (cases "getAllFromIndexedDB (db w)")
  case (Inl e)
  then show ?thesis by (simp add: exportToLocalStorage_def)
next
  case (Inr p)
  obtain d data where p: "p = (d, data)" by (cases p)
  with Inr have g: "getAllFromIndexedDB (db w) = Inr (d, data)" by simp
  note g' = getAll_again[OF g]
  show ?thesis
  proof (cases "entries d = []")
    case True
    have "exportToLocalStorage toStr w = (Inr 0, w\<lparr>db := d\<rparr>)"
      by (simp add: export_state[OF g] True)
    moreover have "exportToLocalStorage toStr (w\<lparr>db := d\<rparr>) = (Inr 0, w\<lparr>db := d\<rparr>)"
      using export_state[of "w\<lparr>db := d\<rparr>" d data toStr] g' by (simp add: True)
    ultimately show ?thesis by simp
  next
    case False
    let ?L = "put_all (concat (map (entry_writes toStr (timestamps data)) (entries d)))
                (localStorage w)"
    let ?v = "w\<lparr>db := d, localStorage := ?L\<rparr>"
    let ?w1 = "notifySaveDataChanged ?v"
    have first: "snd (exportToLocalStorage toStr w) = ?w1"
      by (simp add: export_state[OF g] False)
    have same: "?w1\<lparr>db := d, localStorage := put_all (concat (map (entry_writes toStr (timestamps data)) (entries d))) (localStorage ?w1)\<rparr> = ?w1"
      by (simp add: notifySaveDataChanged_def Let_def put_all_idem)
    have "getAllFromIndexedDB (db ?w1) = Inr (d, data)"
      using g' by (simp add: notify_fields)
    from export_state[OF this, of toStr] False
    have second: "snd (exportToLocalStorage toStr ?w1) = ?w1"
      by (simp add: same notify_idem)
    have one: "outbox ?w1 = outbox w
      \<or> (isInIframe w
         \<and> Some (JSON_stringify_object
               (collect (\<lambda>key. \<not> (key = [] \<or> suffix ''::ts'' key)) (localStorage ?w1)))
             \<noteq> lastSyncedData w
         \<and> outbox ?w1 = outbox w @ [SaveDataChanged
               (collect (\<lambda>key. \<not> (key = [] \<or> suffix ''::ts'' key)) (localStorage ?w1))]
         \<and> lastSyncedData ?w1 = Some (JSON_stringify_object
               (collect (\<lambda>key. \<not> (key = [] \<or> suffix ''::ts'' key)) (localStorage ?w1))))"
      by (auto simp: notifySaveDataChanged_def Let_def)
    then have len: "length (outbox ?w1) \<le> length (outbox w) + 1" by auto
    from one g False have "outbox ?w1 = outbox w
      \<or> (isInIframe w
         \<and> (\<exists>d data. getAllFromIndexedDB (db w) = Inr (d, data) \<and> entries d \<noteq> [])
         \<and> Some (JSON_stringify_object
               (collect (\<lambda>key. \<not> (key = [] \<or> suffix ''::ts'' key)) (localStorage ?w1)))
             \<noteq> lastSyncedData w
         \<and> outbox ?w1 = outbox w @ [SaveDataChanged
               (collect (\<lambda>key. \<not> (key = [] \<or> suffix ''::ts'' key)) (localStorage ?w1))]
         \<and> lastSyncedData ?w1 = Some (JSON_stringify_object
               (collect (\<lambda>key. \<not> (key = [] \<or> suffix ''::ts'' key)) (localStorage ?w1))))"
      by blast
    with second len show ?thesis unfolding first by simp
  qed
qed

lemma export_posts_when_changed:
  assumes "isInIframe w"
    and "getAllFromIndexedDB (db w) = Inr (d, data)" "entries d \<noteq> []"
    and "Some (JSON_stringify_object
                 (collect (\<lambda>key. \<not> (key = [] \<or> suffix ''::ts'' key))
                    (localStorage (snd (exportToLocalStorage toStr w)))))
           \<noteq> lastSyncedData w"
  shows "outbox (snd (exportToLocalStorage toStr w))
           = outbox w @ [SaveDataChanged
               (collect (\<lambda>key. \<not> (key = [] \<or> suffix ''::ts'' key))
                  (localStorage (snd (exportToLocalStorage toStr w))))]"
proof -
  let ?L = "put_all (concat (map (entry_writes toStr (timestamps data)) (entries d)))
              (localStorage w)"
  let ?v = "w\<lparr>db := d, localStorage := ?L\<rparr>"
  have first: "snd (exportToLocalStorage toStr w) = notifySaveDataChanged ?v"
    by (simp add: export_state[OF assms(2)] assms(3))
  have ls: "localStorage (notifySaveDataChanged ?v) = ?L"
    by (simp add: notify_fields)
  from assms(4) have "Some (JSON_stringify_object
                 (collect (\<lambda>key. \<not> (key = [] \<or> suffix ''::ts'' key)) ?L))
           \<noteq> lastSyncedData w"
    unfolding first ls .
  then show ?thesis
    unfolding first ls using assms(1) by (simp add: notifySaveDataChanged_def Let_def)
qed

text \<open>
  C3 (amended). An export posts at most one \<open>saveDataChanged\<close>, and it posts one exactly
  when the page runs inside a parent frame, the Store was read and holds at least one
  entry (whatever the success count), and the payload, the FlatStore entries without the
  empty key and the \<open>::ts\<close> keys, differs from the digest of the last payload sent; the
  digest is then updated. An export that follows another with no change in between
  changes nothing and posts nothing, so two consecutive exports post at most one
  notification.
\<close>

theorem C3_notification_guard:
  "(outbox (snd (exportToLocalStorage toStr w)) = outbox w
    \<or> (isInIframe w
       \<and> (\<exists>d data. getAllFromIndexedDB (db w) = Inr (d, data) \<and> entries d \<noteq> [])
       \<and> Some (JSON_stringify_object
                 (collect (\<lambda>key. \<not> (key = [] \<or> suffix ''::ts'' key))
                    (localStorage (snd (exportToLocalStorage toStr w)))))
           \<noteq> lastSyncedData w
       \<and> outbox (snd (exportToLocalStorage toStr w))
           = outbox w @ [SaveDataChanged
               (collect (\<lambda>key. \<not> (key = [] \<or> suffix ''::ts'' key))
                  (localStorage (snd (exportToLocalStorage toStr w))))]
       \<and> lastSyncedData (snd (exportToLocalStorage toStr w))
           = Some (JSON_stringify_object
                 (collect (\<lambda>key. \<not> (key = [] \<or> suffix ''::ts'' key))
                    (localStorage (snd (exportToLocalStorage toStr w)))))))
   \<and> snd (exportToLocalStorage toStr (snd (exportToLocalStorage toStr w)))
       = snd (exportToLocalStorage toStr w)
   \<and> length (outbox (snd (exportToLocalStorage toStr (snd (exportToLocalStorage toStr w)))))
       \<le> length (outbox w) + 1
   \<and> (isInIframe w
       \<and> (\<exists>d data. getAllFromIndexedDB (db w) = Inr (d, data) \<and> entries d \<noteq> [])
       \<and> Some (JSON_stringify_object
                 (collect (\<lambda>key. \<not> (key = [] \<or> suffix ''::ts'' key))
                    (localStorage (snd (exportToLocalStorage toStr w)))))
           \<noteq> lastSyncedData w
     \<longrightarrow> outbox (snd (exportToLocalStorage toStr w))
           = outbox w @ [SaveDataChanged
               (collect (\<lambda>key. \<not> (key = [] \<or> suffix ''::ts'' key))
                  (localStorage (snd (exportToLocalStorage toStr w))))])"
proof -
  note once = export_posts_at_most_once[of toStr w]
  have "isInIframe w
       \<and> (\<exists>d data. getAllFromIndexedDB (db w) = Inr (d, data) \<and> entries d \<noteq> [])
       \<and> Some (JSON_stringify_object
                 (collect (\<lambda>key. \<not> (key = [] \<or> suffix ''::ts'' key))
                    (localStorage (snd (exportToLocalStorage toStr w)))))
           \<noteq> lastSyncedData w
     \<longrightarrow> outbox (snd (exportToLocalStorage toStr w))
           = outbox w @ [SaveDataChanged
               (collect (\<lambda>key. \<not> (key = [] \<or> suffix ''::ts'' key))
                  (localStorage (snd (exportToLocalStorage toStr w))))]"
    using export_posts_when_changed[of w _ _ toStr] by blast
  with once show ?thesis by blast
qed

theorem C3_notification_guard_witness:
  "isInIframe (freshPage\<lparr>db := freshStore\<lparr>container := Some [(''a'', JNum (Fin 1))]\<rparr>\<rparr>)
   \<and> (\<exists>d data. getAllFromIndexedDB
          (db (freshPage\<lparr>db := freshStore\<lparr>container := Some [(''a'', JNum (Fin 1))]\<rparr>\<rparr>))
          = Inr (d, data) \<and> entries d \<noteq> [])
   \<and> lastSyncedData (freshPage\<lparr>db := freshStore\<lparr>container := Some [(''a'', JNum (Fin 1))]\<rparr>\<rparr>)
       = None
   \<and> fst (exportToLocalStorage noTimestamp
        (freshPage\<lparr>db := freshStore\<lparr>container := Some [(''a'', JNum (Fin 1))]\<rparr>\<rparr>)) = Inr 1
   \<and> outbox (snd (exportToLocalStorage noTimestamp
        (freshPage\<lparr>db := freshStore\<lparr>container := Some [(''a'', JNum (Fin 1))]\<rparr>\<rparr>)))
       = [SaveDataChanged [(''dta'', ''JS:1'')]]"
proof -
  let ?d = "freshStore\<lparr>container := Some [(''a'', JNum (Fin 1))]\<rparr>"
  let ?w = "freshPage\<lparr>db := ?d\<rparr>"
  let ?data = "\<lparr>keys = [''a''], vals = [JNum (Fin 1)], timestamps = []\<rparr>"
  have g: "getAllFromIndexedDB (db ?w) = Inr (?d, ?data)"
    by (simp add: getAllFromIndexedDB_def openDB_def freshStore_def entries_def
          List.map_filter_def timestamp_of_def)
  have h1: "isInIframe ?w" by (simp add: freshPage_def)
  have h2: "\<exists>d data. getAllFromIndexedDB (db ?w) = Inr (d, data) \<and> entries d \<noteq> []"
    using g by (simp add: entries_def)
  have h3: "Some (JSON_stringify_object
                 (collect (\<lambda>key. \<not> (key = [] \<or> suffix ''::ts'' key))
                    (localStorage (snd (exportToLocalStorage noTimestamp ?w)))))
           \<noteq> lastSyncedData ?w"
    by (simp add: freshPage_def)
  have sa: "serializeForLocalStorage (JNum (Fin 1)) = Inr ''JS:1''" by code_simp
  have wa: "entry_writes noTimestamp [] (''a'', JNum (Fin 1)) = [(''dta'', ''JS:1'')]"
    unfolding entry_writes_def snd_conv fst_conv sa
    by (simp add: MAX_LOCALSTORAGE_BYTES_def localStoragePrefix_def)
  have ex: "exportToLocalStorage noTimestamp ?w
      = (Inr 1, notifySaveDataChanged (?w\<lparr>db := ?d, localStorage := [(''dta'', ''JS:1'')]\<rparr>))"
    unfolding export_state[OF g, of noTimestamp]
    using one_fits by (simp add: entries_def wa freshPage_def)
  have c: "collect (\<lambda>key. \<not> (key = [] \<or> suffix ''::ts'' key)) [(''dta'', ''JS:1'')]
      = [(''dta'', ''JS:1'')]"
    by (simp add: collect_def suffix_def)
  have ls: "localStorage (snd (exportToLocalStorage noTimestamp ?w)) = [(''dta'', ''JS:1'')]"
    by (simp add: ex notify_fields)
  have e1: "fst (exportToLocalStorage noTimestamp ?w) = Inr 1" by (simp add: ex)
  have ob: "outbox ?w = []" by (simp add: freshPage_def)
  from C3_notification_guard[where w = ?w and toStr = noTimestamp] h1 h2 h3
  have "outbox (snd (exportToLocalStorage noTimestamp ?w))
           = outbox ?w @ [SaveDataChanged
               (collect (\<lambda>key. \<not> (key = [] \<or> suffix ''::ts'' key))
                  (localStorage (snd (exportToLocalStorage noTimestamp ?w))))]"
    by blast
  then have "outbox (snd (exportToLocalStorage noTimestamp ?w)) = [SaveDataChanged [(''dta'', ''JS:1'')]]"
    unfolding ls c ob by simp
  moreover have "lastSyncedData ?w = None" by (simp add: freshPage_def)
  ultimately show ?thesis using h1 h2 e1 by blast
qed

lemma update_absent: "k \<notin> fst ` set al \<Longrightarrow> AList.update k v al = al @ [(k, v)]"
  by (induction al) auto

lemma map_of_put_all_last:
  "map_of (put_all (ws @ [(k, v)]) al) k = Some v"
  by (simp add: put_all_append AList.update_conv')

lemma import_candidates_append:
  "import_candidates (ls @ ls') = import_candidates ls @ import_candidates ls'"
  by (simp add: import_candidates_def)

lemma import_candidates_none:
  "list_all (\<lambda>k. \<not> prefix localStoragePrefix k) (map fst ls) \<Longrightarrow> import_candidates ls = []"
  by (induction ls) (auto simp: import_candidates_def)

text \<open>
  C9. The Store holds exactly \<open>a = 1\<close> and \<open>b = Date(1000)\<close>, it can be opened, and no
  key of the FlatStore carries the prefix yet. The export resolves with count 2 and the
  FlatStore then maps \<open>dta\<close> to \<open>JS:1\<close> and \<open>dtb\<close> to \<open>DATE:1000\<close>. When the Store is
  emptied and the import runs on that FlatStore, the import resolves with count 2 and
  the Store holds exactly \<open>a = 1\<close> and \<open>b = Date(1000)\<close> again.
\<close>

theorem C9_export_then_import_restores:
  assumes "container (db w) = Some [(''a'', JNum (Fin 1)), (''b'', JDate (Some 1000))]"
    and "openable (db w)"
    and "list_all (\<lambda>k. \<not> prefix localStoragePrefix k) (map fst (localStorage w))"
  shows "fst (exportToLocalStorage toStr w) = Inr 2
       \<and> getItem ''dta'' (localStorage (snd (exportToLocalStorage toStr w))) = Some ''JS:1''
       \<and> getItem ''dtb'' (localStorage (snd (exportToLocalStorage toStr w))) = Some ''DATE:1000''
       \<and> fst (importFromLocalStorage
             ((snd (exportToLocalStorage toStr w))\<lparr>db := (db w)\<lparr>container := Some []\<rparr>\<rparr>))
           = Inr 2
       \<and> container (db (snd (importFromLocalStorage
             ((snd (exportToLocalStorage toStr w))\<lparr>db := (db w)\<lparr>container := Some []\<rparr>\<rparr>))))
           = Some [(''a'', JNum (Fin 1)), (''b'', JDate (Some 1000))]"
proof -
  let ?es = "[(''a'', JNum (Fin 1)), (''b'', JDate (Some 1000))]"
  let ?ts = "if hasIndex (db w) then [] else []"
  have sa: "serializeForLocalStorage (JNum (Fin 1)) = Inr ''JS:1''" by code_simp
  have sb: "serializeForLocalStorage (JDate (Some 1000)) = Inr ''DATE:1000''" by code_simp
  have da: "deserializeFromLocalStorage ''JS:1'' = Inr (JNum (Fin 1))" by code_simp
  have db': "deserializeFromLocalStorage ''DATE:1000'' = Inr (JDate (Some 1000))" by code_simp
  have g: "getAllFromIndexedDB (db w)
      = Inr (db w, \<lparr>keys = [''a'', ''b''], vals = [JNum (Fin 1), JDate (Some 1000)],
                    timestamps = []\<rparr>)"
    using assms(1,2)
    by (simp add: getAllFromIndexedDB_def openDB_def entries_def List.map_filter_def
          timestamp_of_def)
  have wa: "entry_writes toStr [] (''a'', JNum (Fin 1)) = [(''dta'', ''JS:1'')]"
    unfolding entry_writes_def snd_conv fst_conv sa
    by (simp add: MAX_LOCALSTORAGE_BYTES_def localStoragePrefix_def)
  have wb: "entry_writes toStr [] (''b'', JDate (Some 1000)) = [(''dtb'', ''DATE:1000'')]"
    unfolding entry_writes_def snd_conv fst_conv sb
    by (simp add: MAX_LOCALSTORAGE_BYTES_def localStoragePrefix_def)
  have fa: "fits (JNum (Fin 1))" unfolding fits_def sa by (simp add: MAX_LOCALSTORAGE_BYTES_def)
  have fb: "fits (JDate (Some 1000))" unfolding fits_def sb by (simp add: MAX_LOCALSTORAGE_BYTES_def)
  have absent: "''dta'' \<notin> fst ` set (localStorage w)" "''dtb'' \<notin> fst ` set (localStorage w)"
    using assms(3) by (fastforce simp: list_all_iff localStoragePrefix_def)+
  let ?L = "localStorage w @ [(''dta'', ''JS:1''), (''dtb'', ''DATE:1000'')]"
  have L: "AList.update ''dtb'' ''DATE:1000'' (AList.update ''dta'' ''JS:1'' (localStorage w)) = ?L"
    using absent by (simp add: update_absent)
  have ex: "exportToLocalStorage toStr w
      = (Inr 2, notifySaveDataChanged (w\<lparr>db := db w, localStorage := ?L\<rparr>))"
    using assms(1) by (simp add: export_state[OF g] entries_def wa wb fa fb L)
  have ls1: "localStorage (snd (exportToLocalStorage toStr w)) = ?L"
    by (simp add: ex notify_fields)
  have cand: "import_candidates ?L = [(''a'', ''JS:1''), (''b'', ''DATE:1000'')]"
    using import_candidates_none[OF assms(3)]
    by (simp add: import_candidates_append)
       (simp add: import_candidates_def localStoragePrefix_def suffix_def)
  have writes: "import_writes ?L = ?es"
    by (simp add: import_writes_def cand List.map_filter_def da db')
  let ?w1 = "(snd (exportToLocalStorage toStr w))\<lparr>db := (db w)\<lparr>container := Some []\<rparr>\<rparr>"
  have sv: "save_all ?es ((db w)\<lparr>container := Some []\<rparr>)
      = (2, False, (db w)\<lparr>container := Some (put_all ?es [])\<rparr>)"
    using save_all_open[of "(db w)\<lparr>container := Some []\<rparr>" "[]" ?es] assms(2) by simp
  have im: "importFromLocalStorage ?w1
      = (Inr 2, ?w1\<lparr>db := (db w)\<lparr>container := Some ?es\<rparr>\<rparr>)"
    by (simp add: importFromLocalStorage_def ls1 writes sv del: save_all.simps)
  have none: "map_of (localStorage w) ''dta'' = None" "map_of (localStorage w) ''dtb'' = None"
    using absent by (simp_all add: map_of_eq_None_iff)
  have e1: "fst (exportToLocalStorage toStr w) = Inr 2" by (simp add: ex)
  have g1: "getItem ''dta'' ?L = Some ''JS:1''" "getItem ''dtb'' ?L = Some ''DATE:1000''"
    by (simp_all add: getItem_def map_add_def none)
  show ?thesis
    by (simp add: e1 ls1 g1 im)
qed

theorem C9_export_then_import_restores_witness:
  "container (db (freshPage\<lparr>db := freshStore\<lparr>container :=
       Some [(''a'', JNum (Fin 1)), (''b'', JDate (Some 1000))]\<rparr>,
       localStorage := [(''deltarune_loaded'', ''true'')]\<rparr>))
     = Some [(''a'', JNum (Fin 1)), (''b'', JDate (Some 1000))]
   \<and> openable (db (freshPage\<lparr>db := freshStore\<lparr>container :=
       Some [(''a'', JNum (Fin 1)), (''b'', JDate (Some 1000))]\<rparr>,
       localStorage := [(''deltarune_loaded'', ''true'')]\<rparr>))
   \<and> list_all (\<lambda>k. \<not> prefix localStoragePrefix k) (map fst [(''deltarune_loaded'', ''true'')])
   \<and> fst (exportToLocalStorage noTimestamp
        (freshPage\<lparr>db := freshStore\<lparr>container :=
           Some [(''a'', JNum (Fin 1)), (''b'', JDate (Some 1000))]\<rparr>,
           localStorage := [(''deltarune_loaded'', ''true'')]\<rparr>)) = Inr 2
   \<and> getItem ''dtb'' (localStorage (snd (exportToLocalStorage noTimestamp
        (freshPage\<lparr>db := freshStore\<lparr>container :=
           Some [(''a'', JNum (Fin 1)), (''b'', JDate (Some 1000))]\<rparr>,
           localStorage := [(''deltarune_loaded'', ''true'')]\<rparr>)))) = Some ''DATE:1000''"
proof -
  let ?w = "freshPage\<lparr>db := freshStore\<lparr>container :=
       Some [(''a'', JNum (Fin 1)), (''b'', JDate (Some 1000))]\<rparr>,
       localStorage := [(''deltarune_loaded'', ''true'')]\<rparr>"
  have h1: "container (db ?w) = Some [(''a'', JNum (Fin 1)), (''b'', JDate (Some 1000))]"
    by (simp add: freshPage_def)
  have h2: "openable (db ?w)" by (simp add: freshPage_def freshStore_def)
  have h3: "list_all (\<lambda>k. \<not> prefix localStoragePrefix k) (map fst (localStorage ?w))"
    by (simp add: freshPage_def localStoragePrefix_def)
  have h3': "list_all (\<lambda>k. \<not> prefix localStoragePrefix k) (map fst [(''deltarune_loaded'', ''true'')])"
    by (simp add: localStoragePrefix_def)
  from C9_export_then_import_restores[OF h1 h2 h3, of noTimestamp] h1 h2 h3'
  show ?thesis by blast
qed

section \<open>Round trips of the codec\<close>

subsection \<open>Base64\<close>

fun sextets :: "nat list \<Rightarrow> nat list" where
  "sextets [] = []"
| "sextets [a] = [a div 4, (a mod 4) * 16]"
| "sextets [a, b] = [a div 4, (a mod 4) * 16 + b div 16, (b mod 16) * 4]"
| "sextets (a # b # c # r) =
     (a div 4) # ((a mod 4) * 16 + b div 16) # ((b mod 16) * 4 + c div 64) # (c mod 64)
       # sextets r"

fun padding :: "nat list \<Rightarrow> string" where
  "padding [] = []"
| "padding [a] = ''==''"
| "padding [a, b] = ''=''"
| "padding (a # b # c # r) = padding r"

lemma btoa_groups_sextets: "btoa_groups ns = map b64_char (sextets ns) @ padding ns"
  by (induction ns rule: sextets.induct) simp_all

lemma b64_val_char: "n < 64 \<Longrightarrow> b64_val (b64_char n) = Some n"
  by (auto simp: b64_val_def b64_char_def Let_def)

lemma b64_val_pad: "b64_val (CHR ''='') = None"
  by (simp add: b64_val_def)

lemma b64_val_whitespace: "ascii_whitespace c \<Longrightarrow> b64_val c = None"
  by (auto simp: ascii_whitespace_def b64_val_def)

lemma b64_char_plain: "n < 64 \<Longrightarrow> b64_char n \<noteq> CHR ''='' \<and> \<not> ascii_whitespace (b64_char n)"
  using b64_val_char[of n] b64_val_pad b64_val_whitespace[of "b64_char n"] by auto

lemma sextets_bound: "list_all (\<lambda>n. n < 256) ns \<Longrightarrow> list_all (\<lambda>n. n < 64) (sextets ns)"
  by (induction ns rule: sextets.induct) auto

lemma atob_groups_sextets: "list_all (\<lambda>n. n < 256) ns \<Longrightarrow> atob_groups (sextets ns) = ns"
  by (induction ns rule: sextets.induct) auto

lemma length_sextets_padding: "(length (sextets ns) + length (padding ns)) mod 4 = 0"
  by (induction ns rule: sextets.induct) simp_all

lemma length_sextets_mod: "length (sextets ns) mod 4 \<noteq> 1"
  by (induction ns rule: sextets.induct) simp_all

lemma padding_cases: "padding ns = [] \<or> padding ns = ''='' \<or> padding ns = ''==''"
  by (induction ns rule: padding.induct) simp_all

lemma those_b64_val:
  "list_all (\<lambda>n. n < 64) xs \<Longrightarrow> those (map b64_val (map b64_char xs)) = Some xs"
  by (induction xs) (simp_all add: b64_val_char)

lemma strip_padding_plain:
  assumes "list_all (\<lambda>n. n < 64) xs" "p = [] \<or> p = ''='' \<or> p = ''==''"
    "(length xs + length p) mod 4 = 0"
  shows "strip_padding (map b64_char xs @ p) = map b64_char xs"
proof -
  have last_plain: "map b64_char xs \<noteq> [] \<Longrightarrow> last (map b64_char xs) \<noteq> CHR ''=''"
    using assms(1) b64_char_plain by (induction xs) (auto simp: last_map)
  have ends: "ys = zs @ ''='' \<Longrightarrow> ys \<noteq> [] \<and> last ys = CHR ''=''" for ys zs :: string
    by simp
  have no1: "\<not> suffix ''='' (map b64_char xs)"
  proof
    assume "suffix ''='' (map b64_char xs)"
    then obtain zs where "map b64_char xs = zs @ ''=''" by (auto simp: suffix_def)
    from ends[OF this] last_plain show False by simp
  qed
  have no2: "\<not> suffix ''=='' (map b64_char xs)"
  proof
    assume "suffix ''=='' (map b64_char xs)"
    then obtain zs where "map b64_char xs = zs @ ''==''" by (auto simp: suffix_def)
    then have "map b64_char xs = (zs @ ''='') @ ''=''" by simp
    from ends[OF this] last_plain show False by simp
  qed
  have no3: "\<not> suffix ''=='' (map b64_char xs @ ''='')"
  proof
    assume "suffix ''=='' (map b64_char xs @ ''='')"
    then obtain zs where "map b64_char xs @ ''='' = zs @ ''==''" by (auto simp: suffix_def)
    then have "map b64_char xs @ ''='' = (zs @ ''='') @ ''=''" by simp
    then have "map b64_char xs = zs @ ''=''" by (simp only: append_same_eq)
    from ends[OF this] last_plain show False by simp
  qed
  from assms(2) show ?thesis
  proof (elim disjE)
    assume "p = []"
    with assms(3) no1 no2 show ?thesis by (simp add: strip_padding_def)
  next
    assume p: "p = ''=''"
    with assms(3) no3 show ?thesis
      by (simp add: strip_padding_def suffix_def butlast_append)
  next
    assume p: "p = ''==''"
    have "suffix ''=='' (map b64_char xs @ ''=='')" by (simp add: suffix_def)
    with assms(3) p show ?thesis
      by (simp add: strip_padding_def butlast_append)
  qed
qed

lemma atob_btoa: "atob (btoa s) = Inr s"
proof -
  let ?ns = "map of_char s :: nat list"
  let ?xs = "sextets ?ns"
  have b: "list_all (\<lambda>n. n < 256) ?ns" by (simp add: list_all_iff)
  have x: "list_all (\<lambda>n. n < 64) ?xs" using b by (rule sextets_bound)
  have nows1: "filter (\<lambda>c. \<not> ascii_whitespace c) (map b64_char ?xs) = map b64_char ?xs"
    using x b64_char_plain by (auto simp: list_all_iff filter_id_conv)
  have nows2: "filter (\<lambda>c. \<not> ascii_whitespace c) (padding ?ns) = padding ?ns"
    using padding_cases[of ?ns] by (auto simp: ascii_whitespace_def)
  have sp: "strip_padding (map b64_char ?xs @ padding ?ns) = map b64_char ?xs"
    using x padding_cases[of ?ns] length_sextets_padding[of ?ns] by (rule strip_padding_plain)
  have "atob (btoa s) = Inr (map char_of (atob_groups ?xs))"
    using length_sextets_mod[of ?ns]
    by (simp add: atob_def btoa_def btoa_groups_sextets nows1 nows2 sp those_b64_val[OF x]
          Let_def del: map_map)
  also have "\<dots> = Inr s"
    by (simp add: atob_groups_sextets[OF b] comp_def)
  finally show ?thesis .
qed

lemma base64_roundtrip: "base64ToArrayBuffer (arrayBufferToBase64 buffer) = Inr buffer"
proof -
  have "word_of_nat (of_char (char_of (unat b))) = b" for b :: byte
  proof -
    have "unat b < 256" using unsigned_less[of b, where ?'a = nat] by simp
    then show ?thesis by simp
  qed
  then show ?thesis
    by (simp add: base64ToArrayBuffer_def arrayBufferToBase64_def atob_btoa comp_def)
qed

subsection \<open>String literals\<close>

lemma hex_val_digit: "k < 16 \<Longrightarrow> hex_val (hex_digit k) = Some k"
proof -
  have "list_all (\<lambda>k. hex_val (hex_digit k) = Some k) [0..<16]" by code_simp
  then show "k < 16 \<Longrightarrow> hex_val (hex_digit k) = Some k" by (simp add: list_all_iff)
qed

lemma scan_string_escape:
  "scan_string (json_escape c @ r) =
     (case scan_string r of None \<Rightarrow> None | Some (s, rest) \<Rightarrow> Some (c # s, rest))"
proof -
  let ?n = "of_char c :: nat"
  consider (quote) "c = CHR 0x22" | (bs) "c = CHR 0x5C" | (b) "c = CHR 0x08" | (f) "c = CHR 0x0C"
    | (n) "c = CHR 0x0A" | (r) "c = CHR 0x0D" | (t) "c = CHR 0x09"
    | (ctl) "c \<noteq> CHR 0x22" "c \<noteq> CHR 0x5C" "c \<noteq> CHR 0x08" "c \<noteq> CHR 0x0C" "c \<noteq> CHR 0x0A"
        "c \<noteq> CHR 0x0D" "c \<noteq> CHR 0x09" "?n < 32"
    | (plain) "c \<noteq> CHR 0x22" "c \<noteq> CHR 0x5C" "\<not> ?n < 32"
    by (cases "?n < 32") auto
  then show ?thesis
  proof cases
    case ctl
    have h0: "hex_val (CHR ''0'') = Some 0" by (simp add: hex_val_def)
    have h1: "hex_val (hex_digit (?n div 16)) = Some (?n div 16)"
      using ctl(8) by (intro hex_val_digit) simp
    have h2: "hex_val (hex_digit (?n mod 16)) = Some (?n mod 16)"
      by (intro hex_val_digit) simp
    have v: "((0 * 16 + 0) * 16 + ?n div 16) * 16 + ?n mod 16 = ?n" by simp
    have e: "json_escape c = [CHR 0x5C, CHR ''u'', CHR ''0'', CHR ''0'',
        hex_digit (?n div 16), hex_digit (?n mod 16)]"
      using ctl by (simp add: json_escape_def)
    show ?thesis
      using ctl(8) by (simp add: e h0 h1 h2 Let_def split: option.splits)
  next
    case plain
    from plain(3) have "c \<noteq> CHR 0x08" "c \<noteq> CHR 0x0C" "c \<noteq> CHR 0x0A" "c \<noteq> CHR 0x0D"
      "c \<noteq> CHR 0x09" by auto
    with plain show ?thesis by (simp add: json_escape_def)
  qed (simp_all add: json_escape_def unescape_def split: option.splits)
qed

lemma scan_string_quoted:
  "scan_string (concat (map json_escape s) @ CHR 0x22 # rest) = Some (s, rest)"
  by (induction s) (simp_all add: scan_string_escape)

lemma scan_string_json_quote: "scan_string (tl (json_quote s) @ rest) = Some (s, rest)"
  by (simp add: json_quote_def scan_string_quoted)

subsection \<open>Integers in decimal\<close>

lemma digit_char_digit: "d < 10 \<Longrightarrow> is_digit (digit_char d) \<and> of_char (digit_char d) - 48 = d"
  by (simp add: is_digit_def digit_char_def)

lemma nat_digits_digits: "list_all is_digit (nat_digits n)"
proof (induction n rule: nat_digits.induct)
  case (1 n)
  show ?case
  proof (cases "n < 10")
    case True
    then show ?thesis by (subst nat_digits.simps) (simp add: digit_char_digit)
  next
    case False
    with 1 show ?thesis by (subst nat_digits.simps) (simp add: digit_char_digit)
  qed
qed

lemma nat_digits_nonempty: "nat_digits n \<noteq> []"
  by (subst nat_digits.simps) simp

lemma digits_val_snoc: "digits_val (ds @ [c]) = digits_val ds * 10 + (of_char c - 48)"
  by (simp add: digits_val_def)

lemma digits_val_nat_digits: "digits_val (nat_digits n) = n"
proof (induction n rule: nat_digits.induct)
  case (1 n)
  show ?case
  proof (cases "n < 10")
    case True
    then show ?thesis
      by (subst nat_digits.simps) (simp add: digits_val_def digit_char_digit)
  next
    case False
    with 1 show ?thesis
      by (subst nat_digits.simps) (simp add: digits_val_snoc digit_char_digit)
  qed
qed

lemma hd_nat_digits: "n \<noteq> 0 \<Longrightarrow> hd (nat_digits n) \<noteq> CHR ''0''"
proof (induction n rule: nat_digits.induct)
  case (1 n)
  show ?case
  proof (cases "n < 10")
    case True
    have "of_char (digit_char n) - 48 = n" using True by (simp add: digit_char_digit)
    moreover have "of_char (CHR ''0'') - 48 = (0::nat)" by simp
    ultimately have "digit_char n \<noteq> CHR ''0''" using "1.prems" by metis
    then show ?thesis using True by (subst nat_digits.simps) simp
  next
    case False
    then have "n div 10 \<noteq> 0" by simp
    with 1 False have "hd (nat_digits (n div 10)) \<noteq> CHR ''0''" by simp
    then show ?thesis
      using False by (subst nat_digits.simps) (simp add: nat_digits_nonempty)
  qed
qed

lemma nat_digits_zero: "nat_digits 0 = ''0''"
  by code_simp

lemma nat_digits_no_leading_zero:
  "\<not> (1 < length (nat_digits n) \<and> hd (nat_digits n) = CHR ''0'')"
  using hd_nat_digits[of n] by (cases "n = 0") (auto simp: nat_digits_zero)

lemma takeWhile_all: "list_all P xs \<Longrightarrow> takeWhile P xs = xs \<and> dropWhile P xs = []"
  by (induction xs) auto

lemma norm_dec_zero_exp: "norm_dec m 0 = Fin m"
  by (subst norm_dec.simps) simp

lemma is_digit_not_minus: "is_digit c \<Longrightarrow> c \<noteq> CHR ''-''"
  by (auto simp: is_digit_def)

lemma scan_number_nat_digits:
  "scan_number (nat_digits n) = Some (Fin (int n), [])"
proof -
  obtain c cs where s: "nat_digits n = c # cs" using nat_digits_nonempty[of n] by (cases "nat_digits n") auto
  have d: "list_all is_digit (c # cs)" using nat_digits_digits[of n] by (simp add: s)
  then have c: "c \<noteq> CHR ''-''" by (auto dest: is_digit_not_minus)
  have tw: "takeWhile is_digit (c # cs) = c # cs" "dropWhile is_digit (c # cs) = []"
    using takeWhile_all[OF d] by simp_all
  have lz: "\<not> (1 < length (c # cs) \<and> hd (c # cs) = CHR ''0'')"
    using nat_digits_no_leading_zero[of n] by (simp add: s)
  have v: "digits_val (c # cs) = n" using digits_val_nat_digits[of n] by (simp add: s)
  show ?thesis
    unfolding s scan_number_def
    using c lz
    by (simp add: tw v scan_fraction_def scan_exponent_def norm_dec_zero_exp Let_def
          del: takeWhile.simps dropWhile.simps)
qed

lemma scan_number_int: "scan_number (int_to_string i) = Some (Fin i, [])"
proof (cases "i < 0")
  case False
  then show ?thesis using scan_number_nat_digits[of "nat i"] by (simp add: int_to_string_def)
next
  case True
  let ?n = "nat (- i)"
  have d: "list_all is_digit (nat_digits ?n)" by (rule nat_digits_digits)
  have tw: "takeWhile is_digit (nat_digits ?n) = nat_digits ?n"
    "dropWhile is_digit (nat_digits ?n) = []"
    using takeWhile_all[OF d] by simp_all
  have ne: "nat_digits ?n \<noteq> []" by (rule nat_digits_nonempty)
  have "int (digits_val (nat_digits ?n)) = - i"
    using True by (simp add: digits_val_nat_digits)
  then show ?thesis
    using True ne nat_digits_no_leading_zero[of ?n]
    by (simp add: int_to_string_def scan_number_def tw scan_fraction_def scan_exponent_def
          norm_dec_zero_exp Let_def)
qed

lemma int_to_string_head:
  "\<exists>c cs. int_to_string i = c # cs \<and> (c = CHR ''-'' \<or> is_digit c)"
proof (cases "i < 0")
  case True
  then show ?thesis by (simp add: int_to_string_def)
next
  case False
  obtain c cs where s: "nat_digits (nat i) = c # cs"
    using nat_digits_nonempty[of "nat i"] by (cases "nat_digits (nat i)") auto
  with nat_digits_digits[of "nat i"] False show ?thesis by (simp add: int_to_string_def)
qed

lemma next_token_number:
  "c = CHR ''-'' \<or> is_digit c \<Longrightarrow>
     next_token c cs =
       (case scan_number (c # cs) of None \<Rightarrow> None | Some (x, rest) \<Rightarrow> Some (TNum x, rest))"
  by (auto simp: next_token_def is_digit_def)

lemma not_whitespace_number: "c = CHR ''-'' \<or> is_digit c \<Longrightarrow> \<not> json_whitespace c"
  by (auto simp: json_whitespace_def is_digit_def)

lemma lex_int: "lex (int_to_string i) = Some [TNum (Fin i)]"
proof -
  obtain c cs where s: "int_to_string i = c # cs" and c: "c = CHR ''-'' \<or> is_digit c"
    using int_to_string_head[of i] by blast
  have "scan_number (c # cs) = Some (Fin i, [])" using scan_number_int[of i] by (simp add: s)
  then show ?thesis
    unfolding s
    by (simp add: lex.simps not_whitespace_number[OF c] next_token_number[OF c])
qed

lemma JSON_parse_int: "JSON_parse (int_to_string i) = Inr (JNum (Fin i))"
  by (simp add: JSON_parse_def lex_int parse_value.simps)

lemma int_to_string_shape:
  "\<exists>ds. ds \<noteq> [] \<and> list_all is_digit ds \<and> digits_val ds = nat \<bar>i\<bar>
     \<and> int_to_string i = (if i < 0 then CHR ''-'' # ds else ds)"
proof (cases "i < 0")
  case True
  then show ?thesis
    by (intro exI[of _ "nat_digits (nat (- i))"])
       (simp add: int_to_string_def nat_digits_nonempty nat_digits_digits digits_val_nat_digits)
next
  case False
  then show ?thesis
    by (intro exI[of _ "nat_digits (nat i)"])
       (simp add: int_to_string_def nat_digits_nonempty nat_digits_digits digits_val_nat_digits)
qed

lemma is_digit_not_space: "is_digit c \<Longrightarrow> \<not> js_whitespace c"
  by (auto simp: is_digit_def js_whitespace_def)

lemma trim_plain:
  "s \<noteq> [] \<Longrightarrow> \<not> js_whitespace (hd s) \<Longrightarrow> \<not> js_whitespace (last s) \<Longrightarrow> trim s = s"
proof -
  assume a: "s \<noteq> []" "\<not> js_whitespace (hd s)" "\<not> js_whitespace (last s)"
  then have 1: "dropWhile js_whitespace s = s" by (cases s) auto
  from a have "rev s \<noteq> []" "\<not> js_whitespace (hd (rev s))" by (simp_all add: hd_rev)
  then have "dropWhile js_whitespace (rev s) = rev s" by (cases "rev s") auto
  with 1 show ?thesis by (simp add: trim_def)
qed

lemma decimal_literal_digits:
  "ds \<noteq> [] \<Longrightarrow> list_all is_digit ds \<Longrightarrow>
     decimal_literal neg ds = Fin (if neg then - int (digits_val ds) else int (digits_val ds))"
proof -
  assume a: "ds \<noteq> []" "list_all is_digit ds"
  from takeWhile_all[OF a(2)] have t: "takeWhile is_digit ds = ds" "dropWhile is_digit ds = []"
    by simp_all
  show ?thesis
    unfolding decimal_literal_def t
    using a(1) by (simp add: scan_exponent_def norm_dec_zero_exp)
qed

lemma Number_js_int: "Number_js (int_to_string i) = Fin i"
proof -
  obtain ds where ds: "ds \<noteq> []" "list_all is_digit ds" "digits_val ds = nat \<bar>i\<bar>"
    "int_to_string i = (if i < 0 then CHR ''-'' # ds else ds)"
    using int_to_string_shape[of i] by blast
  obtain d ds' where dd: "ds = d # ds'" using ds(1) by (cases ds) auto
  have dig: "is_digit d" "list_all is_digit ds'" using ds(2) dd by simp_all
  have lastd: "is_digit (last ds)" using ds(1,2) by (simp add: list_all_iff)
  have d_plain: "d \<noteq> CHR ''-''" "d \<noteq> CHR ''+''" using dig(1) by (auto simp: is_digit_def)
  have hd_plain: "hd ds \<noteq> CHR ''-''" "hd ds \<noteq> CHR ''+''" using d_plain by (simp_all add: dd)
  have second: "ds' \<noteq> [] \<Longrightarrow> is_digit (hd ds')" using dig(2) by (cases ds') simp_all
  have noradix: "\<not> prefix [CHR ''0'', x] ds" if "\<not> is_digit x" for x
    using that second by (cases ds') (auto simp: dd)
  have nr: "\<not> prefix ''0x'' ds" "\<not> prefix ''0X'' ds" "\<not> prefix ''0o'' ds" "\<not> prefix ''0O'' ds"
    "\<not> prefix ''0b'' ds" "\<not> prefix ''0B'' ds"
    by (rule noradix, simp add: is_digit_def)+
  have notinf: "ds \<noteq> ''Infinity''" using dig(1) by (auto simp: dd is_digit_def)
  show ?thesis
  proof (cases "i < 0")
    case True
    have s: "int_to_string i = CHR ''-'' # ds" using ds(4) True by simp
    have t: "trim (CHR ''-'' # ds) = CHR ''-'' # ds"
      using is_digit_not_space[OF lastd] ds(1) by (intro trim_plain) (simp_all add: js_whitespace_def)
    show ?thesis
      unfolding s Number_js_def t
      using True ds(3) notinf
      by (simp add: decimal_literal_digits[OF ds(1,2)] Let_def)
  next
    case False
    have s: "int_to_string i = ds" using ds(4) False by simp
    have t: "trim ds = ds"
      using is_digit_not_space[OF lastd] is_digit_not_space[OF dig(1)] ds(1)
      by (intro trim_plain) (simp_all add: dd)
    show ?thesis
      unfolding s Number_js_def t
      using False ds(1,3) notinf nr hd_plain
      by (simp add: decimal_literal_digits[OF ds(1,2)] Let_def)
  qed
qed

subsection \<open>Containers of strings\<close>

lemma lex_quote: "lex (json_quote s @ rest) = map_option ((#) (TStr s)) (lex rest)"
proof -
  have q: "json_quote s @ rest = CHR 0x22 # (concat (map json_escape s) @ CHR 0x22 # rest)"
    by (simp add: json_quote_def)
  show ?thesis
    unfolding q
    by (subst lex.simps)
       (simp add: json_whitespace_def next_token_def scan_string_quoted)
qed

lemma lex_punct:
  "lex (CHR ''['' # r) = map_option ((#) TLBrack) (lex r)"
  "lex (CHR '']'' # r) = map_option ((#) TRBrack) (lex r)"
  "lex (CHR ''{'' # r) = map_option ((#) TLBrace) (lex r)"
  "lex (CHR ''}'' # r) = map_option ((#) TRBrace) (lex r)"
  "lex (CHR '':'' # r) = map_option ((#) TColon) (lex r)"
  "lex (CHR '','' # r) = map_option ((#) TComma) (lex r)"
  by (subst lex.simps, simp add: json_whitespace_def next_token_def)+

fun elem_tokens :: "string list \<Rightarrow> token list" where
  "elem_tokens [] = []"
| "elem_tokens [x] = [TStr x]"
| "elem_tokens (x # y # r) = TStr x # TComma # elem_tokens (y # r)"

fun member_tokens :: "(string \<times> string) list \<Rightarrow> token list" where
  "member_tokens [] = []"
| "member_tokens [p] = [TStr (fst p), TColon, TStr (snd p)]"
| "member_tokens (p # q # r) = TStr (fst p) # TColon # TStr (snd p) # TComma # member_tokens (q # r)"

lemma lex_elements:
  "lex (join_comma (map json_quote out) @ rest) = map_option ((@) (elem_tokens out)) (lex rest)"
proof (induction out rule: elem_tokens.induct)
  case 1
  then show ?case by (simp add: option.map_ident)
next
  case (2 x)
  then show ?case by (simp add: lex_quote)
next
  case (3 x y r)
  have "lex (join_comma (map json_quote (x # y # r)) @ rest)
      = lex (json_quote x @ CHR '','' # (join_comma (map json_quote (y # r)) @ rest))"
    by simp
  also have "\<dots> = map_option ((#) (TStr x)) (map_option ((#) TComma)
      (map_option ((@) (elem_tokens (y # r))) (lex rest)))"
    by (simp only: lex_quote lex_punct 3)
  finally show ?case by (simp add: option.map_comp comp_def)
qed

lemma lex_members:
  "lex (join_comma (map (\<lambda>(k, v). json_quote k @ CHR '':'' # json_quote v) out) @ rest)
     = map_option ((@) (member_tokens out)) (lex rest)"
proof (induction out rule: member_tokens.induct)
  case 1
  then show ?case by (simp add: option.map_ident)
next
  case (2 p)
  obtain k v where p: "p = (k, v)" by (cases p)
  have "lex ((json_quote k @ CHR '':'' # json_quote v) @ rest)
      = lex (json_quote k @ CHR '':'' # (json_quote v @ rest))" by simp
  also have "\<dots> = map_option ((#) (TStr k)) (map_option ((#) TColon)
      (map_option ((#) (TStr v)) (lex rest)))"
    by (simp only: lex_quote lex_punct)
  finally show ?case by (simp add: p option.map_comp comp_def)
next
  case (3 p q r)
  obtain k v where p: "p = (k, v)" by (cases p)
  let ?f = "\<lambda>(k, v). json_quote k @ CHR '':'' # json_quote v"
  have "lex (join_comma (map ?f (p # q # r)) @ rest)
      = lex (json_quote k @ CHR '':'' # (json_quote v @ CHR '','' # (join_comma (map ?f (q # r)) @ rest)))"
    by (simp add: p)
  also have "\<dots> = map_option ((#) (TStr k)) (map_option ((#) TColon)
      (map_option ((#) (TStr v)) (map_option ((#) TComma)
        (map_option ((@) (member_tokens (q # r))) (lex rest)))))"
    by (simp only: lex_quote lex_punct 3)
  finally show ?case by (simp add: p option.map_comp comp_def)
qed

lemma parse_elems_strings:
  "out \<noteq> [] \<Longrightarrow> parse_elems (elem_tokens out @ TRBrack # r) = Some (map JStr out, r)"
proof (induction out rule: elem_tokens.induct)
  case 1
  then show ?case by simp
next
  case (2 x)
  show ?case
    by (subst parse_elems_unguarded) (simp add: parse_value.simps)
next
  case (3 x y r')
  then have IH: "parse_elems (elem_tokens (y # r') @ TRBrack # r) = Some (map JStr (y # r'), r)"
    by simp
  have e: "elem_tokens (x # y # r') @ TRBrack # r
      = TStr x # TComma # (elem_tokens (y # r') @ TRBrack # r)" by simp
  show ?case
    unfolding e
    by (subst parse_elems_unguarded) (simp add: parse_value.simps IH del: elem_tokens.simps)
qed

lemma parse_members_strings:
  "out \<noteq> [] \<Longrightarrow>
     parse_members (member_tokens out @ TRBrace # r)
       = Some (map (\<lambda>(k, v). (k, JStr v)) out, r)"
proof (induction out rule: member_tokens.induct)
  case 1
  then show ?case by simp
next
  case (2 p)
  show ?case
    by (subst parse_members_unguarded) (simp add: parse_value.simps split_def)
next
  case (3 p q r')
  then have IH: "parse_members (member_tokens (q # r') @ TRBrace # r)
      = Some (map (\<lambda>(k, v). (k, JStr v)) (q # r'), r)"
    by simp
  have e: "member_tokens (p # q # r') @ TRBrace # r
      = TStr (fst p) # TColon # TStr (snd p) # TComma # (member_tokens (q # r') @ TRBrace # r)"
    by simp
  show ?case
    unfolding e
    by (subst parse_members_unguarded)
       (simp add: parse_value.simps IH split_def del: member_tokens.simps)
qed

lemma object_of_distinct: "distinct (map fst ps) \<Longrightarrow> object_of ps = ps"
proof -
  have "distinct (map fst (acc @ ps)) \<Longrightarrow> put_all ps acc = acc @ ps" for acc
  proof (induction ps arbitrary: acc)
    case Nil
    then show ?case by simp
  next
    case (Cons p ps)
    obtain k v where p: "p = (k, v)" by (cases p)
    from Cons.prems have "k \<notin> fst ` set acc" by (auto simp: p)
    then have u: "AList.update k v acc = acc @ [(k, v)]" by (rule update_absent)
    from Cons.prems have "distinct (map fst ((acc @ [(k, v)]) @ ps))" by (simp add: p)
    from Cons.IH[OF this] show ?case by (simp add: p u)
  qed
  from this[of "[]"] show "distinct (map fst ps) \<Longrightarrow> object_of ps = ps"
    by (simp add: object_of_def put_all_def)
qed

lemma JSON_parse_array:
  "JSON_parse (JSON_stringify_array out) = Inr (JArr (map JStr out))"
proof -
  have l: "lex (JSON_stringify_array out) = Some (TLBrack # elem_tokens out @ [TRBrack])"
    using lex_elements[of out "'']''"]
    by (simp add: JSON_stringify_array_def lex_punct lex.simps(1))
  show ?thesis
  proof (cases "out = []")
    case True
    then show ?thesis unfolding JSON_parse_def l by (simp add: parse_value.simps)
  next
    case False
    then obtain x xs where o: "out = x # xs" by (cases out) auto
    have h: "hd (elem_tokens out @ [TRBrack]) \<noteq> TRBrack"
      by (cases xs) (simp_all add: o)
    have "parse_value (TLBrack # elem_tokens out @ [TRBrack]) = Some (JArr (map JStr out), [])"
      using parse_elems_strings[OF False, of "[]"] h
      by (subst parse_value.simps) simp
    then show ?thesis by (simp add: JSON_parse_def l)
  qed
qed

lemma JSON_parse_object:
  assumes "distinct (map fst out)"
  shows "JSON_parse (JSON_stringify_object out) = Inr (JObj (map (\<lambda>(k, v). (k, JStr v)) out))"
proof -
  have l: "lex (JSON_stringify_object out) = Some (TLBrace # member_tokens out @ [TRBrace])"
    using lex_members[of out "''}''"]
    by (simp add: JSON_stringify_object_def lex_punct lex.simps(1))
  have d: "distinct (map fst (map (\<lambda>(k, v). (k, JStr v)) out))"
    using assms by (simp add: comp_def split_def)
  show ?thesis
  proof (cases "out = []")
    case True
    then show ?thesis unfolding JSON_parse_def l by (simp add: parse_value.simps)
  next
    case False
    then obtain x xs where o: "out = x # xs" by (cases out) auto
    have h: "hd (member_tokens out @ [TRBrace]) \<noteq> TRBrace"
      by (cases xs) (simp_all add: o)
    have "parse_value (TLBrace # member_tokens out @ [TRBrace])
        = Some (JObj (map (\<lambda>(k, v). (k, JStr v)) out), [])"
      using parse_members_strings[OF False, of "[]"] h object_of_distinct[OF d]
      by (subst parse_value.simps) simp
    then show ?thesis by (simp add: JSON_parse_def l)
  qed
qed

lemma JSON_parse_string: "JSON_parse (json_quote s) = Inr (JStr s)"
  using lex_quote[of s "[]"]
  by (simp add: JSON_parse_def lex.simps(1) parse_value.simps)

subsection \<open>Numbers in decimal and scientific notation\<close>

lemma takeWhile_then:
  "list_all P xs \<Longrightarrow> ys = [] \<or> \<not> P (hd ys) \<Longrightarrow>
     takeWhile P (xs @ ys) = xs \<and> dropWhile P (xs @ ys) = ys"
proof (induction xs)
  case Nil
  then show ?case by (cases ys) auto
next
  case (Cons x xs)
  then show ?case by simp
qed

lemma scan_number_body:
  assumes "takeWhile is_digit body = ip"
    and "scan_fraction (dropWhile is_digit body) = Some (fp, s3)"
    and "scan_exponent s3 = Some (ex, s4)"
    and "ip \<noteq> []" "\<not> (1 < length ip \<and> hd ip = CHR ''0'')"
    and "body \<noteq> []" "hd body \<noteq> CHR ''-''"
  shows "scan_number body
           = Some (norm_dec (int (digits_val (ip @ fp))) (ex - int (length fp)), s4)"
    and "scan_number (CHR ''-'' # body)
           = Some (norm_dec (- int (digits_val (ip @ fp))) (ex - int (length fp)), s4)"
proof -
  from assms(6,7) obtain c cs where b: "body = c # cs" "c \<noteq> CHR ''-''" by (cases body) auto
  have 1: "(case body of [] \<Rightarrow> (False, body)
            | c # r \<Rightarrow> (if c = CHR ''-'' then (True, r) else (False, body))) = (False, body)"
    using b by simp
  have 2: "(case CHR ''-'' # body of [] \<Rightarrow> (False, CHR ''-'' # body)
            | c # r \<Rightarrow> (if c = CHR ''-'' then (True, r) else (False, CHR ''-'' # body)))
           = (True, body)"
    by simp
  show "scan_number body
           = Some (norm_dec (int (digits_val (ip @ fp))) (ex - int (length fp)), s4)"
    unfolding scan_number_def 1 using assms(1-5) by (simp add: Let_def)
  show "scan_number (CHR ''-'' # body)
           = Some (norm_dec (- int (digits_val (ip @ fp))) (ex - int (length fp)), s4)"
    unfolding scan_number_def 2 using assms(1-5) by (simp add: Let_def)
qed

text \<open>
  The text of a number: integer digits, fraction digits after a point when there are
  any, then the exponent part.
\<close>

definition number_text :: "string \<Rightarrow> string \<Rightarrow> string \<Rightarrow> string" where
  "number_text ip fp es = ip @ (if fp = [] then [] else CHR ''.'' # fp) @ es"

lemma scan_number_text:
  assumes "ip \<noteq> []" "list_all is_digit ip" "\<not> (1 < length ip \<and> hd ip = CHR ''0'')"
    and "list_all is_digit fp"
    and "scan_exponent es = Some (ex, [])" "es = [] \<or> hd es = CHR ''e''"
  shows "scan_number ((if neg then ''-'' else []) @ number_text ip fp es)
           = Some (norm_dec (if neg then - int (digits_val (ip @ fp)) else int (digits_val (ip @ fp)))
                     (ex - int (length fp)), [])"
proof -
  let ?tail = "(if fp = [] then [] else CHR ''.'' # fp) @ es"
  let ?body = "number_text ip fp es"
  have body: "?body = ip @ ?tail" by (simp add: number_text_def)
  have nd2: "es = [] \<or> \<not> is_digit (hd es)" using assms(6) by (auto simp: is_digit_def)
  have nd: "?tail = [] \<or> \<not> is_digit (hd ?tail)" using nd2 by (auto simp: is_digit_def)
  have tw: "takeWhile is_digit ?body = ip" "dropWhile is_digit ?body = ?tail"
    unfolding body using takeWhile_then[OF assms(2) nd] by simp_all
  have sf: "scan_fraction ?tail = Some (fp, es)"
  proof (cases "fp = []")
    case True
    show ?thesis
    proof (cases es)
      case Nil
      with True show ?thesis by (simp add: scan_fraction_def)
    next
      case (Cons e es')
      with assms(6) True show ?thesis by (simp add: scan_fraction_def)
    qed
  next
    case False
    with takeWhile_then[OF assms(4) nd2] show ?thesis by (simp add: scan_fraction_def)
  qed
  obtain c cs where ip: "ip = c # cs" using assms(1) by (cases ip) auto
  have c: "is_digit c" using assms(2) ip by simp
  have ne: "?body \<noteq> []" "hd ?body \<noteq> CHR ''-''"
    unfolding body using is_digit_not_minus[OF c] by (simp_all add: ip)
  have sf': "scan_fraction (dropWhile is_digit ?body) = Some (fp, es)"
    unfolding tw(2) by (rule sf)
  show ?thesis
  proof (cases neg)
    case True
    then show ?thesis
      using scan_number_body(2)[OF tw(1) sf' assms(5) assms(1) assms(3) ne] by simp
  next
    case False
    then show ?thesis
      using scan_number_body(1)[OF tw(1) sf' assms(5) assms(1) assms(3) ne] by simp
  qed
qed

lemma scan_exponent_empty: "scan_exponent [] = Some (0, [])"
  by (simp add: scan_exponent_def)

definition exponent_text :: "int \<Rightarrow> string" where
  "exponent_text e = ''e'' @ (if e < 0 then ''-'' else ''+'') @ nat_digits (nat \<bar>e\<bar>)"

lemma scan_exponent_text: "scan_exponent (exponent_text e) = Some (e, [])"
proof -
  have tw: "takeWhile is_digit (nat_digits n) = nat_digits n"
    "dropWhile is_digit (nat_digits n) = []" for n
    using takeWhile_all[OF nat_digits_digits[of n]] by simp_all
  show ?thesis
    by (simp add: exponent_text_def scan_exponent_def tw digits_val_nat_digits
          nat_digits_nonempty Let_def)
qed

lemma hd_exponent_text: "hd (exponent_text e) = CHR ''e''"
  by (simp add: exponent_text_def)

lemma sci_notation_text:
  "ds \<noteq> [] \<Longrightarrow> sci_notation ds e = number_text [hd ds] (tl ds) (exponent_text e)"
  by (cases ds) (auto simp: sci_notation_def number_text_def exponent_text_def)

lemma digits_val_zeros_after: "digits_val (ds @ replicate k (CHR ''0'')) = digits_val ds * 10 ^ k"
proof (induction k)
  case 0
  then show ?case by simp
next
  case (Suc k)
  have "digits_val (ds @ replicate (Suc k) (CHR ''0''))
      = digits_val ((ds @ replicate k (CHR ''0'')) @ [CHR ''0''])"
    by (simp add: replicate_append_same)
  also have "\<dots> = digits_val (ds @ replicate k (CHR ''0'')) * 10"
    by (simp only: digits_val_snoc) simp
  finally show ?case using Suc by simp
qed

lemma digits_val_zeros_before: "digits_val (replicate k (CHR ''0'') @ ds) = digits_val ds"
proof (induction k)
  case 0
  then show ?case by simp
next
  case (Suc k)
  have "digits_val (CHR ''0'' # xs) = digits_val xs" for xs
    by (simp add: digits_val_def)
  with Suc show ?case by simp
qed

lemma strip_zeros_split:
  "ds = strip_zeros ds @ replicate (length ds - length (strip_zeros ds)) (CHR ''0'')"
proof -
  let ?P = "\<lambda>c. c = CHR ''0''"
  have t: "takeWhile ?P xs = replicate (length (takeWhile ?P xs)) (CHR ''0'')" for xs
    by (induction xs) auto
  have "rev ds = takeWhile ?P (rev ds) @ dropWhile ?P (rev ds)" by simp
  then have "ds = rev (dropWhile ?P (rev ds)) @ rev (takeWhile ?P (rev ds))"
    by (metis rev_append rev_rev_ident)
  moreover have "length (takeWhile ?P (rev ds)) = length ds - length (strip_zeros ds)"
    using length_append[of "takeWhile ?P (rev ds)" "dropWhile ?P (rev ds)"]
    by (simp add: strip_zeros_def del: length_append)
  ultimately show ?thesis
    using t[of "rev ds"] by (simp add: strip_zeros_def)
qed

lemma strip_zeros_digits: "list_all is_digit ds \<Longrightarrow> list_all is_digit (strip_zeros ds)"
  by (auto simp: strip_zeros_def list_all_iff dest: set_dropWhileD)

lemma strip_zeros_nonempty: "ds \<noteq> [] \<Longrightarrow> hd ds \<noteq> CHR ''0'' \<Longrightarrow> strip_zeros ds \<noteq> []"
proof -
  assume a: "ds \<noteq> []" "hd ds \<noteq> CHR ''0''"
  then have "last (rev ds) \<noteq> CHR ''0''" by (simp add: last_rev)
  moreover have "rev ds \<noteq> []" using a by simp
  ultimately have "dropWhile (\<lambda>c. c = CHR ''0'') (rev ds) \<noteq> []"
    by (metis (mono_tags, lifting) dropWhile_eq_Nil_conv last_in_set)
  then show ?thesis by (simp add: strip_zeros_def)
qed

lemma norm_dec_integer: "0 \<le> e \<Longrightarrow> norm_dec m e = Fin (m * 10 ^ nat e)"
  by (subst norm_dec.simps) simp

lemma norm_dec_fraction: "m mod 10 \<noteq> 0 \<Longrightarrow> 0 < j \<Longrightarrow> norm_dec m (- int j) = Dec m j"
  by (subst norm_dec.simps) auto


lemma scan_number_large:
  assumes "\<not> \<bar>i\<bar> < 10 ^ 21"
  shows "scan_number (Number_toString (Fin i)) = Some (Fin i, [])"
proof -
  let ?n = "nat \<bar>i\<bar>"
  let ?ds = "nat_digits ?n"
  let ?sz = "strip_zeros ?ds"
  let ?k = "length ?ds - length ?sz"
  from assms have n0: "?n \<noteq> 0" by auto
  have ds: "?ds \<noteq> []" "list_all is_digit ?ds" "hd ?ds \<noteq> CHR ''0''"
    using nat_digits_nonempty nat_digits_digits hd_nat_digits[OF n0] by simp_all
  have sz: "?sz \<noteq> []" "list_all is_digit ?sz"
    using strip_zeros_nonempty[OF ds(1,3)] strip_zeros_digits[OF ds(2)] by simp_all
  then obtain c cs where s: "?sz = c # cs" by (cases ?sz) auto
  have c: "is_digit c" "list_all is_digit cs" using sz(2) by (simp_all add: s)
  have len: "length ?sz \<le> length ?ds"
    using strip_zeros_split[of ?ds] by (metis le_add1 length_append)
  have val: "digits_val ?sz * 10 ^ ?k = ?n"
    using strip_zeros_split[of ?ds] digits_val_zeros_after[of ?sz ?k] digits_val_nat_digits[of ?n]
    by simp
  have cc: "[c] @ cs = ?sz" by (simp add: s)
  have e: "int (length ?ds) - 1 - int (length cs) = int ?k"
    using len by (simp add: s)
  have shape: "Number_toString (Fin i)
      = (if i < 0 then ''-'' else []) @ number_text [c] cs (exponent_text (int (length ?ds) - 1))"
    using assms sci_notation_text[OF sz(1), of "int (length ?ds) - 1"] by (simp add: s)
  have "scan_number (Number_toString (Fin i))
      = Some (norm_dec (if i < 0 then - int (digits_val ([c] @ cs)) else int (digits_val ([c] @ cs)))
                (int (length ?ds) - 1 - int (length cs)), [])"
    unfolding shape
    by (rule scan_number_text)
       (simp_all add: c scan_exponent_text hd_exponent_text)
  also have "\<dots> = Some (Fin ((if i < 0 then - int (digits_val ?sz) else int (digits_val ?sz))
                * 10 ^ ?k), [])"
    unfolding e cc by (simp add: norm_dec_integer)
  also have "(if i < 0 then - int (digits_val ?sz) else int (digits_val ?sz)) * 10 ^ ?k = i"
  proof -
    have "int (digits_val ?sz) * 10 ^ ?k = int ?n" using val by (metis of_nat_mult of_nat_power of_nat_numeral)
    then show ?thesis by (cases "i < 0") simp_all
  qed
  finally show ?thesis .
qed

lemma scan_number_Fin: "scan_number (Number_toString (Fin i)) = Some (Fin i, [])"
  using scan_number_large[of i] scan_number_int[of i] by (cases "\<bar>i\<bar> < 10 ^ 21") simp_all

lemma decimal_to_string_sci:
  "\<not> (int (length ds) \<le> n \<and> n \<le> 21) \<Longrightarrow> \<not> (0 < n \<and> n \<le> 21) \<Longrightarrow> \<not> (- 6 < n \<and> n \<le> 0)
     \<Longrightarrow> decimal_to_string ds n = sci_notation ds (n - 1)"
  unfolding decimal_to_string_def Let_def by presburger

lemma decimal_to_string_text:
  assumes "n \<noteq> 0" "0 < j"
  shows "\<exists>ip fp es ex.
      decimal_to_string (nat_digits n) (int (length (nat_digits n)) - int j) = number_text ip fp es
    \<and> ip \<noteq> [] \<and> list_all is_digit ip \<and> \<not> (1 < length ip \<and> hd ip = CHR ''0'')
    \<and> list_all is_digit fp \<and> scan_exponent es = Some (ex, []) \<and> (es = [] \<or> hd es = CHR ''e'')
    \<and> digits_val (ip @ fp) = n \<and> ex - int (length fp) = - int j"
proof -
  let ?ds = "nat_digits n"
  let ?k = "length ?ds"
  let ?p = "int ?k - int j"
  have ds: "?ds \<noteq> []" "list_all is_digit ?ds" "hd ?ds \<noteq> CHR ''0''"
    using nat_digits_nonempty nat_digits_digits hd_nat_digits[OF assms(1)] by simp_all
  have k: "0 < ?k" using ds(1) by simp
  have notpad: "\<not> int ?k \<le> ?p" using assms(2) by simp
  consider (plain) "0 < ?p" "?p \<le> 21" | (small) "- 6 < ?p" "?p \<le> 0"
    | (sci) "\<not> (0 < ?p \<and> ?p \<le> 21)" "\<not> (- 6 < ?p \<and> ?p \<le> 0)"
    by linarith
  then show ?thesis
  proof cases
    case plain
    let ?ip = "take (nat ?p) ?ds" and ?fp = "drop (nat ?p) ?ds"
    have fp: "?fp \<noteq> []" using plain assms(2) by simp
    have ip: "?ip \<noteq> []" using plain ds(1) by simp
    have t: "decimal_to_string ?ds ?p = number_text ?ip ?fp []"
      using plain notpad fp by (simp add: decimal_to_string_def number_text_def Let_def)
    have d: "list_all is_digit ?ip" "list_all is_digit ?fp"
      using ds(2) by (auto simp: list_all_iff dest: in_set_takeD in_set_dropD)
    have h: "hd ?ip \<noteq> CHR ''0''" using ds(3) plain by simp
    have l: "0 - int (length ?fp) = - int j" using plain by simp
    show ?thesis
      using t ip d h l digits_val_nat_digits[of n]
      by (intro exI[of _ ?ip] exI[of _ ?fp] exI[of _ "[]"] exI[of _ 0])
         (simp add: scan_exponent_empty)
  next
    case small
    let ?fp = "replicate (nat (- ?p)) (CHR ''0'') @ ?ds"
    have t: "decimal_to_string ?ds ?p = number_text ''0'' ?fp []"
      using small notpad ds(1) by (simp add: decimal_to_string_def number_text_def Let_def)
    have d: "list_all is_digit ?fp" using ds(2) by (auto simp: list_all_iff is_digit_def)
    have v: "digits_val (''0'' @ ?fp) = n"
      using digits_val_zeros_before[of "Suc (nat (- ?p))" ?ds] digits_val_nat_digits[of n]
      by simp
    have l: "0 - int (length ?fp) = - int j" using small by simp
    have z: "list_all is_digit ''0''" by (simp add: is_digit_def)
    show ?thesis
      using t d v l z
      by (intro exI[of _ "''0''"] exI[of _ ?fp] exI[of _ "[]"] exI[of _ 0])
         (simp add: scan_exponent_empty)
  next
    case sci
    have "decimal_to_string ?ds ?p = sci_notation ?ds (?p - 1)"
      using sci notpad by (intro decimal_to_string_sci) simp_all
    then have t: "decimal_to_string ?ds ?p
        = number_text [hd ?ds] (tl ?ds) (exponent_text (?p - 1))"
      by (simp only: sci_notation_text[OF ds(1)])
    have d: "list_all is_digit [hd ?ds]" "list_all is_digit (tl ?ds)"
      using ds(1,2) by (cases ?ds; simp)+
    have v: "digits_val ([hd ?ds] @ tl ?ds) = n"
      using digits_val_nat_digits[of n] ds(1) by simp
    have "Suc (length (tl ?ds)) = ?k" using ds(1) by (cases ?ds) simp_all
    then have "int (length (tl ?ds)) = int ?k - 1" by linarith
    then have l: "?p - 1 - int (length (tl ?ds)) = - int j" by simp
    show ?thesis
      using t d v l
      by (intro exI[of _ "[hd ?ds]"] exI[of _ "tl ?ds"] exI[of _ "exponent_text (?p - 1)"]
            exI[of _ "?p - 1"])
         (simp add: scan_exponent_text hd_exponent_text)
  qed
qed

lemma scan_number_Dec:
  assumes "m mod 10 \<noteq> 0" "0 < j"
  shows "scan_number (Number_toString (Dec m j)) = Some (Dec m j, [])"
proof -
  let ?n = "nat \<bar>m\<bar>"
  from assms(1) have n0: "?n \<noteq> 0" by auto
  obtain ip fp es ex where p:
    "decimal_to_string (nat_digits ?n) (int (length (nat_digits ?n)) - int j) = number_text ip fp es"
    "ip \<noteq> []" "list_all is_digit ip" "\<not> (1 < length ip \<and> hd ip = CHR ''0'')"
    "list_all is_digit fp" "scan_exponent es = Some (ex, [])" "es = [] \<or> hd es = CHR ''e''"
    "digits_val (ip @ fp) = ?n" "ex - int (length fp) = - int j"
    using decimal_to_string_text[OF n0 assms(2)] by blast
  have shape: "Number_toString (Dec m j) = (if m < 0 then ''-'' else []) @ number_text ip fp es"
    by (simp add: norm_dec_fraction[OF assms] p(1))
  have sgn: "(if m < 0 then - int ?n else int ?n) = m" by simp
  show ?thesis
    unfolding shape scan_number_text[OF p(2-7)] p(8,9) sgn
    by (simp add: norm_dec_fraction[OF assms])
qed

text \<open>
  The finite numbers: every integer, and the decimal fractions in lowest form.
\<close>

fun finite_number :: "jsnum \<Rightarrow> bool" where
  "finite_number (Fin i) = True"
| "finite_number (Dec m j) = (m mod 10 \<noteq> 0 \<and> 0 < j)"
| "finite_number x = False"

lemma scan_number_finite:
  "finite_number x \<Longrightarrow> scan_number (JSON_stringify_number x) = Some (x, [])"
  by (cases x) (simp_all add: scan_number_Fin scan_number_Dec del: Number_toString.simps)

lemma scan_number_head:
  "scan_number s = Some r \<Longrightarrow> s \<noteq> [] \<and> (hd s = CHR ''-'' \<or> is_digit (hd s))"
  by (cases s) (auto simp: scan_number_def Let_def split: if_splits)

lemma JSON_parse_number:
  assumes "scan_number s = Some (x, [])"
  shows "JSON_parse s = Inr (JNum x)"
proof -
  from scan_number_head[OF assms] obtain c cs where
    s: "s = c # cs" and c: "c = CHR ''-'' \<or> is_digit c" by (cases s) auto
  have "lex (c # cs) = Some [TNum x]"
    using assms
    by (simp add: s lex.simps not_whitespace_number[OF c] next_token_number[OF c])
  then show ?thesis by (simp add: s JSON_parse_def parse_value.simps)
qed

lemma JSON_parse_finite:
  "finite_number x \<Longrightarrow> JSON_parse (JSON_stringify_number x) = Inr (JNum x)"
  by (rule JSON_parse_number) (rule scan_number_finite)

subsection \<open>Values that survive the codec\<close>

text \<open>
  The values on which the round trip is proved: null, undefined, booleans, strings,
  finite numbers, dates (the invalid date included), ArrayBuffers, views that span their
  whole buffer, blobs whose type has no comma, and arrays and objects of such values
  (the keys of an object distinct, as the properties of an object are, and none of them
  \<open>__proto__\<close>). The values of this theory have no negative zero and no array with
  holes, so the round trip says nothing about them.
\<close>

definition date_in_range :: "int option \<Rightarrow> bool" where
  "date_in_range t = (case t of None \<Rightarrow> True | Some ms \<Rightarrow> \<bar>ms\<bar> \<le> 8640000000000000)"

fun supported :: "jsval \<Rightarrow> bool"
  and supported_list :: "jsval list \<Rightarrow> bool"
  and supported_props :: "(string \<times> jsval) list \<Rightarrow> bool"
where
  "supported JNull = True"
| "supported JUndefined = True"
| "supported (JBool b) = True"
| "supported (JNum x) = finite_number x"
| "supported (JBigInt i) = False"
| "supported (JStr s) = True"
| "supported (JDate t) = date_in_range t"
| "supported (JArrayBuffer buffer) = True"
| "supported (JView k buffer byteOffset byteLength) =
     (byteOffset = 0 \<and> byteLength = length buffer \<and> length buffer mod bytesPerElement k = 0)"
| "supported (JBlob bs ty) = (CHR '','' \<notin> set ty)"
| "supported (JArr xs) = supported_list xs"
| "supported (JObj ps) = (distinct (map fst ps) \<and> supported_props ps)"
| "supported_list [] = True"
| "supported_list (x # xs) = (supported x \<and> supported_list xs)"
| "supported_props [] = True"
| "supported_props (p # ps) =
     (fst p \<noteq> ''__proto__'' \<and> supported (snd p) \<and> supported_props ps)"

text \<open>
  The decoder builds every blob with the type \<open>application/octet-stream\<close>.
\<close>

fun withGenericBlobs :: "jsval \<Rightarrow> jsval"
  and withGenericBlobs_list :: "jsval list \<Rightarrow> jsval list"
  and withGenericBlobs_props :: "(string \<times> jsval) list \<Rightarrow> (string \<times> jsval) list"
where
  "withGenericBlobs (JBlob bs ty) = JBlob bs ''application/octet-stream''"
| "withGenericBlobs (JArr xs) = JArr (withGenericBlobs_list xs)"
| "withGenericBlobs (JObj ps) = JObj (withGenericBlobs_props ps)"
| "withGenericBlobs v = v"
| "withGenericBlobs_list [] = []"
| "withGenericBlobs_list (x # xs) = withGenericBlobs x # withGenericBlobs_list xs"
| "withGenericBlobs_props [] = []"
| "withGenericBlobs_props (p # ps) = (fst p, withGenericBlobs (snd p)) # withGenericBlobs_props ps"

lemma roundtrip_null:
  "deserializeFromLocalStorage ''JS:__NULL__'' = Inr JNull"
  by (subst deserializeFromLocalStorage.simps) simp

lemma roundtrip_undefined:
  "deserializeFromLocalStorage ''JS:__UNDEFINED__'' = Inr JUndefined"
  by (subst deserializeFromLocalStorage.simps) simp

lemma roundtrip_bool:
  "deserializeFromLocalStorage (''JS:'' @ (if b then ''true'' else ''false'')) = Inr (JBool b)"
  by (cases b) (simp_all, code_simp+)

lemma roundtrip_string:
  "deserializeFromLocalStorage (''JS:'' @ json_quote s) = Inr (JStr s)"
proof -
  have q: "''JS:'' @ json_quote s = ''JS:'' @ CHR 0x22 # tl (json_quote s)"
    by (simp add: json_quote_def)
  have "deserializeFromLocalStorage (''JS:'' @ json_quote s) = JSON_parse (json_quote s)"
    by (subst deserializeFromLocalStorage.simps, subst (1 2 3 4 5 6 7) q) simp
  then show ?thesis by (simp add: JSON_parse_string)
qed

lemma roundtrip_number:
  assumes "finite_number x"
  shows "deserializeFromLocalStorage (''JS:'' @ JSON_stringify_number x) = Inr (JNum x)"
proof -
  have sc: "scan_number (JSON_stringify_number x) = Some (x, [])"
    using assms by (rule scan_number_finite)
  from scan_number_head[OF sc] obtain c cs where
    h: "JSON_stringify_number x = c # cs" "c = CHR ''-'' \<or> is_digit c"
    by (cases "JSON_stringify_number x") auto
  then have c: "c \<noteq> CHR ''_''" by (auto simp: is_digit_def)
  have "deserializeFromLocalStorage (''JS:'' @ c # cs) = JSON_parse (c # cs)"
    using c by (subst deserializeFromLocalStorage.simps) simp
  then show ?thesis
    unfolding h(1)[symmetric] by (simp only: JSON_parse_number[OF sc])
qed

lemma roundtrip_date:
  assumes "date_in_range t"
  shows "deserializeFromLocalStorage (''DATE:'' @ Number_toString (getTime t)) = Inr (JDate t)"
proof -
  have d: "deserializeFromLocalStorage (''DATE:'' @ x) = Inr (JDate (newDate (Number_js x)))" for x
    by (subst deserializeFromLocalStorage.simps) simp
  show ?thesis
  proof (cases t)
    case None
    have "Number_js ''NaN'' = NaN" by code_simp
    then show ?thesis using d[of "''NaN''"] by (simp add: None getTime_def newDate_def)
  next
    case (Some ms)
    with assms have r: "\<bar>ms\<bar> \<le> 8640000000000000" by (simp add: date_in_range_def)
    then have "\<bar>ms\<bar> < 10 ^ 21" by simp
    then show ?thesis
      using r d[of "int_to_string ms"] by (simp add: Some getTime_def newDate_def Number_js_int)
  qed
qed

lemma roundtrip_buffer:
  "deserializeFromLocalStorage (''AB:'' @ arrayBufferToBase64 buffer) = Inr (JArrayBuffer buffer)"
  by (subst deserializeFromLocalStorage.simps) (simp add: base64_roundtrip)

lemma ctorName_plain: "CHR '':'' \<notin> set (ctorName k)"
  by (cases k) simp_all

lemma globalThisView_ctorName: "globalThisView (ctorName k) = Some k"
  by (cases k) (simp_all add: globalThisView_def allViewKinds_def)

lemma roundtrip_view:
  assumes "length buffer mod bytesPerElement k = 0"
  shows "deserializeFromLocalStorage (''TA:'' @ ctorName k @ '':'' @ arrayBufferToBase64 buffer)
           = Inr (JView k buffer 0 (length buffer))"
proof -
  let ?rest = "ctorName k @ '':'' @ arrayBufferToBase64 buffer"
  have t: "takeWhile (\<lambda>c. c \<noteq> CHR '':'') ?rest = ctorName k"
    using ctorName_plain[of k] by (subst takeWhile_append2) auto
  have dr: "dropWhile (\<lambda>c. c \<noteq> CHR '':'') ?rest = '':'' @ arrayBufferToBase64 buffer"
    using ctorName_plain[of k] by (subst dropWhile_append2) auto
  have "deserializeFromLocalStorage (''TA:'' @ ?rest)
      = (let ctor = takeWhile (\<lambda>c. c \<noteq> CHR '':'') ?rest;
             b64 = tl (dropWhile (\<lambda>c. c \<noteq> CHR '':'') ?rest)
         in case base64ToArrayBuffer b64 of
              Inl e \<Rightarrow> Inl e
            | Inr ab \<Rightarrow>
               (case globalThisView ctor of
                  None \<Rightarrow> Inr (JArrayBuffer ab)
                | Some T \<Rightarrow>
                   (if length ab mod bytesPerElement T = 0
                    then Inr (JView T ab 0 (length ab))
                    else Inr (JArrayBuffer ab))))"
    by (subst deserializeFromLocalStorage.simps) (simp add: Let_def)
  then show ?thesis
    unfolding t dr using assms by (simp add: base64_roundtrip globalThisView_ctorName)
qed

lemma blobToBase64_plain:
  assumes "CHR '','' \<notin> set ty"
  shows "blobToBase64 bs ty = arrayBufferToBase64 bs"
proof -
  let ?head = "''data:'' @ (if ty = [] then ''application/octet-stream'' else ty) @ '';base64''"
  have u: "readAsDataURL bs ty = ?head @ CHR '','' # arrayBufferToBase64 bs"
    by (simp add: readAsDataURL_def)
  have h: "CHR '','' \<notin> set ?head" using assms by simp
  have "dropWhile (\<lambda>c. c \<noteq> CHR '','') (?head @ CHR '','' # arrayBufferToBase64 bs)
      = CHR '','' # arrayBufferToBase64 bs"
    using h by (subst dropWhile_append2) auto
  then show ?thesis
    unfolding blobToBase64_def slice_after_comma_def u by simp
qed

lemma roundtrip_blob:
  assumes "CHR '','' \<notin> set ty"
  shows "deserializeFromLocalStorage (''BL:'' @ blobToBase64 bs ty)
           = Inr (JBlob bs ''application/octet-stream'')"
  unfolding blobToBase64_plain[OF assms]
  by (subst deserializeFromLocalStorage.simps) (simp add: base64_roundtrip)

lemma roundtrip_array:
  "deserializeFromLocalStorage (''OBJ:'' @ JSON_stringify_array out)
     = (case rev_js_list deserializeFromLocalStorage (map JStr out) of
          Inl e \<Rightarrow> Inl e | Inr ys \<Rightarrow> Inr (JArr ys))"
  by (subst deserializeFromLocalStorage.simps) (simp add: JSON_parse_array)

lemma roundtrip_object:
  "distinct (map fst out) \<Longrightarrow>
   deserializeFromLocalStorage (''OBJ:'' @ JSON_stringify_object out)
     = (case rev_js_props deserializeFromLocalStorage (map (\<lambda>(k, v). (k, JStr v)) out) of
          Inl e \<Rightarrow> Inl e | Inr qs \<Rightarrow> Inr (JObj qs))"
  by (subst deserializeFromLocalStorage.simps) (simp add: JSON_parse_object)

lemma roundtrip_all:
  "supported v \<Longrightarrow>
     \<exists>s. serializeForLocalStorage v = Inr s
        \<and> deserializeFromLocalStorage s = Inr (withGenericBlobs v)"
  "supported_list xs \<Longrightarrow>
     \<exists>out. serialize_elements xs = Inr out
        \<and> rev_js_list deserializeFromLocalStorage (map JStr out) = Inr (withGenericBlobs_list xs)"
  "supported_props ps \<Longrightarrow>
     \<exists>out. serialize_properties ps = Inr out \<and> map fst out = map fst ps
        \<and> rev_js_props deserializeFromLocalStorage (map (\<lambda>(k, v). (k, JStr v)) out)
            = Inr (withGenericBlobs_props ps)"
proof (induction v and xs and ps rule: supported_supported_list_supported_props.induct)
  case 1
  then show ?case using roundtrip_null by simp
next
  case 2
  then show ?case using roundtrip_undefined by simp
next
  case (3 b)
  then show ?case using roundtrip_bool[of b] by simp
next
  case (4 x)
  then show ?case using roundtrip_number[of x] by simp
next
  case (5 i)
  then show ?case by simp
next
  case (6 s)
  then show ?case using roundtrip_string[of s] by simp
next
  case (7 t)
  then show ?case using roundtrip_date[of t] by simp
next
  case (8 buffer)
  then show ?case using roundtrip_buffer[of buffer] by simp
next
  case (9 k buffer byteOffset byteLength)
  then show ?case using roundtrip_view[of buffer k] by simp
next
  case (10 bs ty)
  then show ?case using roundtrip_blob[of ty bs] by simp
next
  case (11 xs)
  then obtain out where "serialize_elements xs = Inr out"
    "rev_js_list deserializeFromLocalStorage (map JStr out) = Inr (withGenericBlobs_list xs)"
    by auto
  then show ?case using roundtrip_array[of out] by simp
next
  case (12 ps)
  then obtain out where o: "serialize_properties ps = Inr out" "map fst out = map fst ps"
    "rev_js_props deserializeFromLocalStorage (map (\<lambda>(k, v). (k, JStr v)) out)
       = Inr (withGenericBlobs_props ps)"
    by auto
  from 12 o(2) have "distinct (map fst out)" by simp
  then show ?case using o roundtrip_object[of out] by simp
next
  case 13
  then show ?case by simp
next
  case (14 x xs)
  then obtain s out where "serializeForLocalStorage x = Inr s"
    "deserializeFromLocalStorage s = Inr (withGenericBlobs x)"
    "serialize_elements xs = Inr out"
    "rev_js_list deserializeFromLocalStorage (map JStr out) = Inr (withGenericBlobs_list xs)"
    by auto
  then show ?case by simp
next
  case 15
  then show ?case by simp
next
  case (16 p ps)
  then have key: "fst p \<noteq> ''__proto__''" by simp
  from 16 obtain s out where "serializeForLocalStorage (snd p) = Inr s"
    "deserializeFromLocalStorage s = Inr (withGenericBlobs (snd p))"
    "serialize_properties ps = Inr out" "map fst out = map fst ps"
    "rev_js_props deserializeFromLocalStorage (map (\<lambda>(k, v). (k, JStr v)) out)
       = Inr (withGenericBlobs_props ps)"
    by auto
  with key show ?case by simp
qed

text \<open>
  An own property named \<open>__proto__\<close> does not survive: the encoder leaves it out of the
  text it writes, and the decoder leaves such a member out of the object it builds.
\<close>

lemma proto_property_is_not_stored:
  "serializeForLocalStorage (JObj [(''__proto__'', JNum (Fin 1)), (''a'', JNum (Fin 2))])
     = serializeForLocalStorage (JObj [(''a'', JNum (Fin 2))])
   \<and> serialize_properties [(''__proto__'', JNum (Fin 1)), (''a'', JNum (Fin 2))]
     = Inr [(''a'', ''JS:2'')]
   \<and> rev_js_props deserializeFromLocalStorage
        [(''__proto__'', JStr ''JS:1''), (''a'', JStr ''JS:2'')]
     = Inr [(''a'', JNum (Fin 2))]"
  by code_simp

text \<open>
  C1, as the codec has it. For every value of the categories of the claim that is built
  from null, undefined, booleans, strings, finite numbers, dates, ArrayBuffers, views
  that span their whole buffer, blobs whose type has no comma, and arrays and objects of
  such values with no own property named \<open>__proto__\<close>,
  \<open>serializeForLocalStorage\<close> returns a string and
  \<open>deserializeFromLocalStorage\<close> of that string returns the value with the type of every
  blob replaced by \<open>application/octet-stream\<close>.
\<close>

theorem C1_roundtrip_of_supported_values:
  "supported v \<Longrightarrow>
     \<exists>s. serializeForLocalStorage v = Inr s
        \<and> deserializeFromLocalStorage s = Inr (withGenericBlobs v)"
  by (rule roundtrip_all(1))

definition savedFile :: jsval where
  "savedFile = JObj [(''timestamp'', JDate (Some 1700000000000)),
                     (''mode'', JNum (Fin 33206)),
                     (''ratio'', JNum (Dec (- 125) 2)),
                     (''contents'', JView Uint8Array [68, 82, 49] 0 3),
                     (''extras'', JArr [JNull, JStr ''ch1'', JBlob [104, 105] ''text/plain''])]"

theorem C1_roundtrip_of_supported_values_witness:
  "supported savedFile
   \<and> (\<exists>s. serializeForLocalStorage savedFile = Inr s
          \<and> deserializeFromLocalStorage s
              = Inr (JObj [(''timestamp'', JDate (Some 1700000000000)),
                           (''mode'', JNum (Fin 33206)),
                           (''ratio'', JNum (Dec (- 125) 2)),
                           (''contents'', JView Uint8Array [68, 82, 49] 0 3),
                           (''extras'', JArr [JNull, JStr ''ch1'',
                               JBlob [104, 105] ''application/octet-stream''])]))"
proof -
  have h: "supported savedFile" by (simp add: savedFile_def date_in_range_def)
  have g: "withGenericBlobs savedFile
      = JObj [(''timestamp'', JDate (Some 1700000000000)),
              (''mode'', JNum (Fin 33206)),
              (''ratio'', JNum (Dec (- 125) 2)),
              (''contents'', JView Uint8Array [68, 82, 49] 0 3),
              (''extras'', JArr [JNull, JStr ''ch1'',
                  JBlob [104, 105] ''application/octet-stream''])]"
    by (simp add: savedFile_def)
  from C1_roundtrip_of_supported_values[OF h] h show ?thesis unfolding g by blast
qed

text \<open>
  C1 as stated fails on three values of its categories. The number NaN is encoded as
  \<open>JS:null\<close> and decoded as null. A view of two bytes at offset 1 of a buffer of four
  bytes is encoded with the whole buffer and decoded as a view of all four bytes. A blob
  of type \<open>text/plain\<close> is decoded as a blob of type \<open>application/octet-stream\<close>.
\<close>

theorem C1_roundtrip_loses_information:
  "serializeForLocalStorage (JNum NaN) = Inr ''JS:null''
   \<and> deserializeFromLocalStorage ''JS:null'' = Inr JNull
   \<and> serializeForLocalStorage (JView Uint8Array [1, 2, 3, 4] 1 2) = Inr ''TA:Uint8Array:AQIDBA==''
   \<and> deserializeFromLocalStorage ''TA:Uint8Array:AQIDBA==''
        = Inr (JView Uint8Array [1, 2, 3, 4] 0 4)
   \<and> serializeForLocalStorage (JBlob [104, 105] ''text/plain'') = Inr ''BL:aGk=''
   \<and> deserializeFromLocalStorage ''BL:aGk=''
        = Inr (JBlob [104, 105] ''application/octet-stream'')"
  by code_simp

end
